theory Spec2Isabelle
  imports Main "HOL-Library.AList"
begin

section \<open>JavaScript strings\<close>

text \<open>
  A JavaScript string is a sequence of UTF-16 code units; a code unit is modelled by its
  number. \<open>js\<close> turns an ASCII literal into such a string.
\<close>

type_synonym jsstring = "nat list"

definition js :: "string \<Rightarrow> jsstring" where
  "js s = map of_char s"

text \<open>
  The code units removed by \<^verbatim>\<open>String.prototype.trim\<close>: ECMAScript WhiteSpace (TAB, VT, FF,
  SP, NBSP, ZWNBSP and the other members of category Zs) and LineTerminator (LF, CR, LS, PS).
\<close>

definition isWhiteSpace :: "nat \<Rightarrow> bool" where
  "isWhiteSpace c \<longleftrightarrow>
     c \<in> set [9, 10, 11, 12, 13, 32, 160, 5760, 8232, 8233, 8239, 8287, 12288, 65279]
     \<or> (8192 \<le> c \<and> c \<le> 8202)"

definition trimStart :: "jsstring \<Rightarrow> jsstring" where
  "trimStart s = dropWhile isWhiteSpace s"

definition trimEnd :: "jsstring \<Rightarrow> jsstring" where
  "trimEnd s = rev (dropWhile isWhiteSpace (rev s))"

definition trim :: "jsstring \<Rightarrow> jsstring" where
  "trim s = trimEnd (trimStart s)"

definition startsWith :: "jsstring \<Rightarrow> jsstring \<Rightarrow> bool" where
  "startsWith s p \<longleftrightarrow> take (length p) s = p"

text \<open>\<^verbatim>\<open>s.indexOf(c)\<close> for a one-unit search string: the first position of \<open>c\<close>, or \<open>-1\<close>.\<close>

fun indexOf :: "jsstring \<Rightarrow> nat \<Rightarrow> int" where
  "indexOf [] c = - 1"
| "indexOf (x # xs) c =
     (if x = c then 0 else (let r = indexOf xs c in if r < 0 then - 1 else r + 1))"

text \<open>\<^verbatim>\<open>s.substring(a, b)\<close> clamps both arguments to the length and swaps them when \<open>a > b\<close>;
  \<^verbatim>\<open>s.substring(a)\<close> runs to the end.\<close>

definition substring :: "jsstring \<Rightarrow> nat \<Rightarrow> nat \<Rightarrow> jsstring" where
  "substring s a b =
     (let a' = min a (length s); b' = min b (length s);
          lo = min a' b'; hi = max a' b'
      in take (hi - lo) (drop lo s))"

definition substringFrom :: "jsstring \<Rightarrow> nat \<Rightarrow> jsstring" where
  "substringFrom s a = drop a s"

text \<open>\<^verbatim>\<open>parts.join(sep)\<close>.\<close>

fun join :: "jsstring \<Rightarrow> jsstring list \<Rightarrow> jsstring" where
  "join sep [] = []"
| "join sep [x] = x"
| "join sep (x # y # ys) = x @ sep @ join sep (y # ys)"

text \<open>
  \<^verbatim>\<open>s.split(/\r?\n/)\<close>: the string is cut at every LF, and a CR directly before that LF
  belongs to the separator. A CR that no LF follows stays in its line.
\<close>

fun prepend :: "nat \<Rightarrow> jsstring list \<Rightarrow> jsstring list" where
  "prepend c [] = [[c]]"
| "prepend c (l # ls) = (c # l) # ls"

fun split_lines :: "jsstring \<Rightarrow> jsstring list" where
  "split_lines [] = [[]]"
| "split_lines [c] = (if c = 10 then [[], []] else [[c]])"
| "split_lines (c # d # cs) =
     (if c = 10 then [] # split_lines (d # cs)
      else if c = 13 \<and> d = 10 then [] # split_lines cs
      else prepend c (split_lines (d # cs)))"

text \<open>\<^verbatim>\<open>`${x}`\<close> for a property that holds a string or is missing.\<close>

definition tmpl :: "jsstring option \<Rightarrow> jsstring" where
  "tmpl v = (case v of None \<Rightarrow> js ''undefined'' | Some s \<Rightarrow> s)"


section \<open>The line format: \<^verbatim>\<open>parseLocalContent\<close> and \<^verbatim>\<open>reconstructLocal\<close>\<close>

text \<open>
  \<^verbatim>\<open>indexModTranslator.js\<close>, \<^verbatim>\<open>parseLocalContent\<close> (and, with the same body,
  \<^verbatim>\<open>LangTranslate._parseLocal\<close>). Every parsed line is an object
  \<^verbatim>\<open>{ type, originalLine, lineNumber }\<close>, a key-value line has \<^verbatim>\<open>key\<close> and \<^verbatim>\<open>value\<close> too, and
  the pipeline later stores \<^verbatim>\<open>translatedValue\<close> on it. A property that is not set is \<open>None\<close>.
\<close>

datatype line_type = T_empty | T_comment | T_kv | T_other

record parsed_line =
  ltype :: line_type
  originalLine :: jsstring
  lineNumber :: nat
  lkey :: "jsstring option"
  lvalue :: "jsstring option"
  translatedValue :: "jsstring option"

definition plain_line :: "line_type \<Rightarrow> jsstring \<Rightarrow> nat \<Rightarrow> parsed_line" where
  "plain_line t line n =
     \<lparr> ltype = t, originalLine = line, lineNumber = n,
       lkey = None, lvalue = None, translatedValue = None \<rparr>"

definition parse_line :: "jsstring \<Rightarrow> nat \<Rightarrow> parsed_line" where
  "parse_line line index =
     (let trimmedLine = trim line; lineNumber = index + 1 in
      if trimmedLine = [] then plain_line T_empty line lineNumber
      else if startsWith trimmedLine (js ''#'') then plain_line T_comment line lineNumber
      else
        (let separatorIndex = indexOf line 61 in
         if separatorIndex > 0 then
           (let key = trimEnd (substring line 0 (nat separatorIndex));
                val = substringFrom line (nat separatorIndex + 1)
            in if trim key \<noteq> [] then
                 \<lparr> ltype = T_kv, originalLine = line, lineNumber = lineNumber,
                   lkey = Some key, lvalue = Some val, translatedValue = None \<rparr>
               else plain_line T_other line lineNumber)
         else plain_line T_other line lineNumber))"

definition parseLocalContent :: "jsstring \<Rightarrow> parsed_line list" where
  "parseLocalContent localContent =
     (let lines = split_lines localContent
      in map (\<lambda>(index, line). parse_line line index) (enumerate 0 lines))"

definition reconstruct_line :: "parsed_line \<Rightarrow> jsstring" where
  "reconstruct_line item =
     (if ltype item = T_kv then
        (let valueToUse = (case translatedValue item of
                             Some t \<Rightarrow> t
                           | None \<Rightarrow> tmpl (lvalue item))
         in tmpl (lkey item) @ js ''='' @ valueToUse)
      else originalLine item)"

definition reconstructLocal :: "parsed_line list \<Rightarrow> jsstring" where
  "reconstructLocal parsedData = join [10] (map reconstruct_line parsedData)"

text \<open>
  The extraction of the texts of one \<^verbatim>\<open>.local\<close> file in \<^verbatim>\<open>main\<close>
  (\<^verbatim>\<open>parsedLines.forEach\<close>): a text and the line number it came from.
\<close>

record text_info =
  info_text :: jsstring
  originalLineNumber :: nat

definition translatable_line :: "parsed_line \<Rightarrow> bool" where
  "translatable_line lineData \<longleftrightarrow>
     ltype lineData = T_kv \<and>
     (case lvalue lineData of None \<Rightarrow> False | Some v \<Rightarrow> trim v \<noteq> [])"

definition extractLocalTexts :: "parsed_line list \<Rightarrow> text_info list" where
  "extractLocalTexts parsedLines =
     map (\<lambda>lineData. \<lparr> info_text = tmpl (lvalue lineData),
                        originalLineNumber = lineNumber lineData \<rparr>)
         (filter translatable_line parsedLines)"

text \<open>
  The reading of the specification, for comparison with the code: line endings are
  normalised by replacing every CR LF pair by LF.
\<close>

fun normalize_line_endings :: "jsstring \<Rightarrow> jsstring" where
  "normalize_line_endings [] = []"
| "normalize_line_endings [c] = [c]"
| "normalize_line_endings (c # d # cs) =
     (if c = 13 \<and> d = 10 then 10 # normalize_line_endings cs
      else c # normalize_line_endings (d # cs))"

text \<open>
  A key-value line whose first \<open>=\<close> directly follows a white-space unit: the key of such a
  line loses that white space in \<^verbatim>\<open>parseLocalContent\<close>.
\<close>

definition space_before_separator :: "jsstring \<Rightarrow> bool" where
  "space_before_separator line \<longleftrightarrow>
     (let i = indexOf line 61 in i > 0 \<and> isWhiteSpace (line ! (nat i - 1)))"

text \<open>
  The specification speaks of the first \<^emph>\<open>unescaped\<close> \<open>=\<close>. Its reading, for comparison with
  \<^verbatim>\<open>line.indexOf('=')\<close>: a backslash escapes the code unit that follows it.
\<close>

fun shift_index :: "int \<Rightarrow> int \<Rightarrow> int" where
  "shift_index k r = (if r < 0 then - 1 else r + k)"

fun spec_unescaped_separator :: "jsstring \<Rightarrow> int" where
  "spec_unescaped_separator [] = - 1"
| "spec_unescaped_separator [x] = (if x = 61 then 0 else - 1)"
| "spec_unescaped_separator (x # y # r) =
     (if x = 92 then shift_index 2 (spec_unescaped_separator r)
      else if x = 61 then 0
      else shift_index 1 (spec_unescaped_separator (y # r)))"


section \<open>JavaScript values, exceptions and the remote service\<close>

text \<open>
  A number: \<^verbatim>\<open>JSON.parse\<close> gives a finite number, \<^verbatim>\<open>-0\<close> (from the text \<^verbatim>\<open>-0\<close>) or an infinity
  (from a text such as \<^verbatim>\<open>1e400\<close>); \<^verbatim>\<open>JSON.stringify\<close> writes \<^verbatim>\<open>-0\<close> as \<^verbatim>\<open>0\<close> and an
  infinity or \<^verbatim>\<open>NaN\<close> as \<^verbatim>\<open>null\<close>. The program never computes with the numbers of a
  file, so the finite numbers other than \<^verbatim>\<open>-0\<close> are kept as integers.
\<close>

datatype jsnumber = Finite int | NegZero | PosInfinity | NegInfinity | NaN

text \<open>
  A JavaScript value as the translator sees it: \<^verbatim>\<open>undefined\<close>, or what \<^verbatim>\<open>JSON.parse\<close> builds.
  An object is the list of its own properties in enumeration order.
\<close>

datatype jsval =
    JUndefined
  | JNull
  | JBool bool
  | JNum jsnumber
  | JStr jsstring
  | JArr "jsval list"
  | JObj "(jsstring \<times> jsval) list"

text \<open>\<^verbatim>\<open>n.toString()\<close> for a non-negative integer: its decimal digits.\<close>

fun decimal :: "nat \<Rightarrow> jsstring" where
  "decimal n = (if n < 10 then [48 + n] else decimal (n div 10) @ [48 + n mod 10])"

declare decimal.simps [simp del]

text \<open>
  A thrown value: whether it is an \<^verbatim>\<open>OpenAI.APIError\<close>, its \<^verbatim>\<open>status\<close>, its \<^verbatim>\<open>message\<close>.
\<close>

record exn =
  is_api_error :: bool
  status :: "nat option"
  message :: jsstring

definition Error :: "jsstring \<Rightarrow> exn" where
  "Error msg = \<lparr> is_api_error = False, status = None, message = msg \<rparr>"

definition TypeError :: "jsstring \<Rightarrow> exn" where
  "TypeError msg = \<lparr> is_api_error = False, status = None, message = msg \<rparr>"

definition APIError :: "nat option \<Rightarrow> jsstring \<Rightarrow> exn" where
  "APIError st msg = \<lparr> is_api_error = True, status = st, message = msg \<rparr>"

text \<open>
  What one remote call gives \<^verbatim>\<open>translateBatchInternal\<close>, with \<^verbatim>\<open>JSON.parse\<close> applied to the
  content: the request (or reading \<^verbatim>\<open>completion.choices[0]\<close>) throws; the content is
  missing or empty; the content does not parse, and \<^verbatim>\<open>JSON.parse\<close> throws a
  \<^verbatim>\<open>SyntaxError\<close> with the given message; the content parses to a value.
\<close>

datatype response =
    Rejected exn
  | NoContent
  | Unparseable jsstring
  | Parsed jsval

text \<open>
  The effects of the translator: the remote requests it has issued, each with the batch it
  was built from and the split depth of the call (what the source's disabled debug line
  prints), and the lines it has written to the console. The \<open>n\<close>-th request of a run is
  answered by \<open>srv n\<close>.
\<close>

datatype log =
    Warn_splitting nat nat
  | Error_parse_failed nat nat
  | Error_api_call nat nat jsstring
  | Warn_fallback
  | Warn_missing nat

record state =
  requests :: "(jsstring list \<times> nat list \<times> nat) list"
  console :: "log list"

definition init_state :: state where
  "init_state = \<lparr> requests = [], console = [] \<rparr>"

definition say :: "log \<Rightarrow> state \<Rightarrow> state" where
  "say l st = st\<lparr> console := console st @ [l] \<rparr>"

definition send :: "jsstring list \<Rightarrow> nat list \<Rightarrow> nat \<Rightarrow> state \<Rightarrow> state" where
  "send texts idxs depth st = st\<lparr> requests := requests st @ [(texts, idxs, depth)] \<rparr>"

text \<open>A \<^verbatim>\<open>Map\<close> with number keys, in insertion order; \<^verbatim>\<open>set\<close> is \<^const>\<open>AList.update\<close>.\<close>

type_synonym jsmap = "(nat \<times> jsval) list"

definition Map_of_entries :: "(nat \<times> jsval) list \<Rightarrow> jsmap" where
  "Map_of_entries es = foldl (\<lambda>m (k, v). AList.update k v m) [] es"

subsection \<open>Property access on a parsed response\<close>

definition index_key :: "jsstring \<Rightarrow> nat \<Rightarrow> nat option" where
  "index_key k n = List.find (\<lambda>i. decimal i = k) [0..<n]"

fun own_property :: "jsval \<Rightarrow> jsstring \<Rightarrow> jsval option" where
  "own_property (JObj kvs) k = map_of kvs k"
| "own_property (JArr xs) k =
     (case index_key k (length xs) of
        Some i \<Rightarrow> Some (xs ! i)
      | None \<Rightarrow> if k = js ''length'' then Some (JNum (Finite (int (length xs)))) else None)"
| "own_property (JStr s) k =
     (case index_key k (length s) of
        Some i \<Rightarrow> Some (JStr [s ! i])
      | None \<Rightarrow> if k = js ''length'' then Some (JNum (Finite (int (length s)))) else None)"
| "own_property _ k = None"

text \<open>
  \<^verbatim>\<open>obj.hasOwnProperty(key)\<close>, a method call on the value: it throws on \<^verbatim>\<open>null\<close> and
  \<^verbatim>\<open>undefined\<close>, and on an object with an own property named \<^verbatim>\<open>hasOwnProperty\<close> (no value
  of \<^verbatim>\<open>JSON.parse\<close> is callable).
\<close>

fun hasOwnProperty :: "jsval \<Rightarrow> jsstring \<Rightarrow> exn + bool" where
  "hasOwnProperty JUndefined k =
     Inl (TypeError (js ''Cannot read properties of undefined''))"
| "hasOwnProperty JNull k =
     Inl (TypeError (js ''Cannot read properties of null''))"
| "hasOwnProperty (JObj kvs) k =
     (case map_of kvs (js ''hasOwnProperty'') of
        Some f \<Rightarrow> Inl (TypeError (js ''hasOwnProperty is not a function''))
      | None \<Rightarrow> Inr (map_of kvs k \<noteq> None))"
| "hasOwnProperty v k = Inr (own_property v k \<noteq> None)"


section \<open>\<^verbatim>\<open>OpenAITranslator.translateBatchInternal\<close>\<close>

definition MAX_SPLIT_DEPTH :: nat where
  "MAX_SPLIT_DEPTH = 2"

fun str_includes :: "jsstring \<Rightarrow> jsstring \<Rightarrow> bool" where
  "str_includes [] sub = (sub = [])"
| "str_includes (x # xs) sub = (startsWith (x # xs) sub \<or> str_includes xs sub)"

text \<open>
  \<^verbatim>\<open>toLowerCase\<close> on the message of a \<^verbatim>\<open>SyntaxError\<close>: the mapping of the letters A to Z.
  (The messages of \<^verbatim>\<open>JSON.parse\<close> are ASCII apart from the input they quote.)
\<close>

definition toLowerCase :: "jsstring \<Rightarrow> jsstring" where
  "toLowerCase s = map (\<lambda>c. if 65 \<le> c \<and> c \<le> 90 then c + 32 else c) s"

definition truncation_like :: "jsstring \<Rightarrow> bool" where
  "truncation_like msg \<longleftrightarrow>
     str_includes msg (js ''Unterminated string'') \<or>
     str_includes msg (js ''Unexpected end of JSON input'') \<or>
     str_includes (toLowerCase msg) (js ''unexpected token'')"

text \<open>\<^verbatim>\<open>textsForThisAPICall[i]\<close>: \<^verbatim>\<open>undefined\<close> out of range.\<close>

definition text_at :: "jsstring list \<Rightarrow> nat \<Rightarrow> jsval" where
  "text_at texts i = (if i < length texts then JStr (texts ! i) else JUndefined)"

text \<open>
  The loop over \<^verbatim>\<open>promptIndicesForThisAPICall\<close> after a response has parsed. It fills
  \<^verbatim>\<open>resultsMap\<close> and may throw part-way (the first component is then the thrown value);
  what it has stored and printed by then stays.
\<close>

fun fill_results ::
  "jsval \<Rightarrow> jsstring list \<Rightarrow> (nat \<times> nat) list \<Rightarrow> jsmap \<Rightarrow> state \<Rightarrow> exn option \<times> jsmap \<times> state" where
  "fill_results translatedJson texts [] resultsMap st = (None, resultsMap, st)"
| "fill_results translatedJson texts ((i, promptIndex) # rest) resultsMap st =
     (let key = decimal promptIndex in
      case hasOwnProperty translatedJson key of
        Inl e \<Rightarrow> (Some e, resultsMap, st)
      | Inr has \<Rightarrow>
          (case (if has then own_property translatedJson key else None) of
             Some (JStr t) \<Rightarrow>
               fill_results translatedJson texts rest
                 (AList.update promptIndex (JStr t) resultsMap) st
           | _ \<Rightarrow>
               (if i < length texts then
                  fill_results translatedJson texts rest
                    (AList.update promptIndex (JStr (texts ! i)) resultsMap)
                    (say (Warn_missing promptIndex) st)
                else
                  (Some (TypeError (js ''Cannot read properties of undefined'')),
                   resultsMap, st))))"

text \<open>The fallback loop of the \<^verbatim>\<open>catch\<close> block: every prompt index gets its original text.\<close>

definition fallback_all :: "nat list \<Rightarrow> jsstring list \<Rightarrow> jsmap \<Rightarrow> jsmap" where
  "fallback_all idxs texts resultsMap =
     foldl (\<lambda>m (i, promptIndex). AList.update promptIndex (text_at texts i) m)
       resultsMap (enumerate 0 idxs)"

text \<open>
  The outer \<^verbatim>\<open>catch (error)\<close> block. It catches everything thrown inside the \<^verbatim>\<open>try\<close>: a
  rejected request, the errors the body throws itself, and what a recursive call throws.
\<close>

definition catch_block ::
  "exn \<Rightarrow> jsstring list \<Rightarrow> nat list \<Rightarrow> nat \<Rightarrow> jsmap \<Rightarrow> state \<Rightarrow> (exn + jsmap) \<times> state" where
  "catch_block error texts idxs depth resultsMap st =
     (let st1 = say (Error_api_call (length texts) depth (message error)) st in
      if is_api_error error \<and> status error = Some 401 then
        (Inl (Error (js ''OpenAI Authorization Failed. Check API Key.'')), st1)
      else if is_api_error error \<and> status error = Some 429 then
        (Inl (Error (js ''OpenAI Rate Limit or Quota Exceeded.'')), st1)
      else
        (Inr (fallback_all idxs texts resultsMap), say Warn_fallback st1))"

definition parse_failure_message :: "nat \<Rightarrow> jsstring \<Rightarrow> jsstring" where
  "parse_failure_message depth msg =
     js ''Failed to parse OpenAI JSON response after '' @ decimal depth @ js '' splits: '' @ msg"

function translateBatchInternal ::
  "(nat \<Rightarrow> response) \<Rightarrow> jsstring list \<Rightarrow> nat list \<Rightarrow> nat \<Rightarrow> state \<Rightarrow> (exn + jsmap) \<times> state" where
  "translateBatchInternal srv texts idxs depth st =
     (if texts = [] then (Inr [], st)
      else
        (let st1 = send texts idxs depth st in
         case srv (length (requests st)) of
           Rejected e \<Rightarrow> catch_block e texts idxs depth [] st1
         | NoContent \<Rightarrow>
             catch_block (Error (js ''OpenAI response content is empty.'')) texts idxs depth [] st1
         | Unparseable msg \<Rightarrow>
             (if length texts > 1 \<and> depth < MAX_SPLIT_DEPTH \<and> truncation_like msg then
                (let st2 = say (Warn_splitting (length texts) (depth + 1)) st1;
                     midPoint = (length texts + 1) div 2;
                     firstHalfTexts = take midPoint texts;
                     firstHalfPromptIndices = take midPoint idxs;
                     secondHalfTexts = drop midPoint texts;
                     secondHalfPromptIndices = drop midPoint idxs
                 in case translateBatchInternal srv firstHalfTexts firstHalfPromptIndices
                           (depth + 1) st2 of
                      (Inl e, st3) \<Rightarrow> catch_block e texts idxs depth [] st3
                    | (Inr firstHalfResults, st3) \<Rightarrow>
                        (case translateBatchInternal srv secondHalfTexts secondHalfPromptIndices
                                (depth + 1) st3 of
                           (Inl e, st4) \<Rightarrow> catch_block e texts idxs depth [] st4
                         | (Inr secondHalfResults, st4) \<Rightarrow>
                             (Inr (Map_of_entries (firstHalfResults @ secondHalfResults)), st4)))
              else
                catch_block (Error (parse_failure_message depth msg)) texts idxs depth []
                  (say (Error_parse_failed (length texts) depth) st1))
         | Parsed translatedJson \<Rightarrow>
             (case fill_results translatedJson texts (enumerate 0 idxs) [] st1 of
                (Some e, resultsMap, st2) \<Rightarrow> catch_block e texts idxs depth resultsMap st2
              | (None, resultsMap, st2) \<Rightarrow> (Inr resultsMap, st2))))"
  by pat_completeness auto
termination
  by (relation "measure (\<lambda>(srv, texts, idxs, depth, st). MAX_SPLIT_DEPTH - depth)") auto

declare translateBatchInternal.simps [simp del]


subsection \<open>Observations on a run\<close>

text \<open>
  A thrown value that the \<^verbatim>\<open>catch\<close> block rethrows as fatal: an \<^verbatim>\<open>APIError\<close> with status
  401 or 429.
\<close>

definition fatal_status :: "exn \<Rightarrow> bool" where
  "fatal_status e \<longleftrightarrow> is_api_error e \<and> (status e = Some 401 \<or> status e = Some 429)"

text \<open>
  The sizes of the batches that \<^verbatim>\<open>translateBatchInternal\<close> gave up parsing (its
  \<^verbatim>\<open>console.error\<close> line "Failed to parse ... cannot split further or not a truncation
  error" prints the batch size and the depth).
\<close>

fun given_up_sizes :: "log list \<Rightarrow> nat list" where
  "given_up_sizes [] = []"
| "given_up_sizes (Error_parse_failed n d # ls) = n # given_up_sizes ls"
| "given_up_sizes (l # ls) = given_up_sizes ls"

text \<open>
  Whether the call that issued request \<open>b\<close> answers response \<open>r\<close> by splitting its batch, and
  the requests of a run (numbered from \<open>n\<close>) whose batch was not split any further.
\<close>

definition is_split :: "response \<Rightarrow> jsstring list \<times> nat list \<times> nat \<Rightarrow> bool" where
  "is_split r b \<longleftrightarrow>
     (case r of
        Unparseable msg \<Rightarrow>
          1 < length (fst b) \<and> snd (snd b) < MAX_SPLIT_DEPTH \<and> truncation_like msg
      | _ \<Rightarrow> False)"

definition resolved_batches ::
  "(nat \<Rightarrow> response) \<Rightarrow> nat \<Rightarrow> (jsstring list \<times> nat list \<times> nat) list
     \<Rightarrow> (jsstring list \<times> nat list \<times> nat) list" where
  "resolved_batches srv n reqs =
     map snd (filter (\<lambda>(k, b). \<not> is_split (srv k) b) (enumerate n reqs))"

text \<open>
  A parsed response on which \<^verbatim>\<open>hasOwnProperty\<close> can be called, and what a prompt index
  resolves to on it: the string the response binds its key to, or else the original text.
\<close>

definition resolved_text :: "jsval \<Rightarrow> nat \<Rightarrow> jsstring \<Rightarrow> jsval" where
  "resolved_text j idx t =
     (case own_property j (decimal idx) of Some (JStr s) \<Rightarrow> JStr s | _ \<Rightarrow> JStr t)"

definition plain_response :: "jsval \<Rightarrow> bool" where
  "plain_response j \<longleftrightarrow>
     j \<noteq> JUndefined \<and> j \<noteq> JNull \<and>
     (case j of JObj kvs \<Rightarrow> map_of kvs (js ''hasOwnProperty'') = None | _ \<Rightarrow> True)"


section \<open>\<^verbatim>\<open>translateTextsBatch\<close>, \<^verbatim>\<open>execJSON\<close> and \<^verbatim>\<open>execLOCAL\<close> of \<^verbatim>\<open>OpenAITranslator\<close>\<close>

text \<open>\<^verbatim>\<open>typeof text === 'string' && text.trim() !== ''\<close>.\<close>

fun is_translatable :: "jsval \<Rightarrow> bool" where
  "is_translatable (JStr s) = (trim s \<noteq> [])"
| "is_translatable v = False"

fun the_string :: "jsval \<Rightarrow> jsstring" where
  "the_string (JStr s) = s"
| "the_string v = []"

text \<open>\<^verbatim>\<open>xs[i] = v\<close> on an array: beyond the end, JavaScript extends the array.\<close>

definition array_set :: "jsval list \<Rightarrow> nat \<Rightarrow> jsval \<Rightarrow> jsval list" where
  "array_set xs i v =
     (if i < length xs then xs[i := v]
      else xs @ replicate (i - length xs) JUndefined @ [v])"


text \<open>
  The \<^verbatim>\<open>translatedMapFromApi.forEach\<close> loop: each entry of the map is written to
  \<^verbatim>\<open>finalResults\<close> at the original index of its prompt index. (A prompt index without an
  original index would set a named property of the array and leave its elements alone.)
\<close>

definition place_results :: "nat list \<Rightarrow> jsmap \<Rightarrow> jsval list \<Rightarrow> jsval list" where
  "place_results originalIndices translatedMap finalResults =
     foldl (\<lambda>res (promptIndexFromApi, translatedText).
              if promptIndexFromApi < length originalIndices
              then array_set res (originalIndices ! promptIndexFromApi) translatedText
              else res)
       finalResults translatedMap"

definition translateTextsBatch ::
  "(nat \<Rightarrow> response) \<Rightarrow> jsval list \<Rightarrow> state \<Rightarrow> (exn + jsval list) \<times> state" where
  "translateTextsBatch srv texts st =
     (if texts = [] then (Inr [], st)
      else
        (let kept = filter (\<lambda>(index, t). is_translatable t) (enumerate 0 texts);
             originalIndices = map fst kept;
             textsToTranslate = map (the_string \<circ> snd) kept;
             finalResults = texts
         in if textsToTranslate \<noteq> [] then
              (let promptIndicesForApi = [0..<length textsToTranslate] in
               case translateBatchInternal srv textsToTranslate promptIndicesForApi 0 st of
                 (Inl e, st') \<Rightarrow> (Inl e, st')
               | (Inr translatedMapFromApi, st') \<Rightarrow>
                   (Inr (place_results originalIndices translatedMapFromApi finalResults), st'))
            else (Inr finalResults, st)))"

text \<open>
  The own enumerable properties of a value, as \<^verbatim>\<open>Object.keys\<close> and the spread \<^verbatim>\<open>{...v}\<close>
  see them: the properties of an object, the elements of an array under their indices.
\<close>

fun own_entries :: "jsval \<Rightarrow> (jsstring \<times> jsval) list" where
  "own_entries (JObj kvs) = kvs"
| "own_entries (JArr xs) = zip (map decimal [0..<length xs]) xs"
| "own_entries v = []"

text \<open>\<^verbatim>\<open>typeof v === 'object' && v !== null\<close>.\<close>

fun is_object :: "jsval \<Rightarrow> bool" where
  "is_object (JObj kvs) = True"
| "is_object (JArr xs) = True"
| "is_object v = False"

text \<open>
  The last loop of \<^verbatim>\<open>execJSON\<close>: \<^verbatim>\<open>translatedData[keysToTranslate[index]] = translatedText\<close>
  for every element of \<^verbatim>\<open>translatedTexts\<close> that has a key.
\<close>

definition assign_texts ::
  "jsstring list \<Rightarrow> jsval list \<Rightarrow> (jsstring \<times> jsval) list \<Rightarrow> (jsstring \<times> jsval) list" where
  "assign_texts keysToTranslate translatedTexts translatedData =
     foldl (\<lambda>d (index, translatedText).
              if index < length keysToTranslate
              then AList.update (keysToTranslate ! index) translatedText d
              else d)
       translatedData (enumerate 0 translatedTexts)"

definition execJSON :: "(nat \<Rightarrow> response) \<Rightarrow> jsval \<Rightarrow> state \<Rightarrow> (exn + jsval) \<times> state" where
  "execJSON srv jsonData st =
     (if \<not> is_object jsonData then (Inr jsonData, st)
      else
        (let kept = filter (\<lambda>(k, v). is_translatable v) (own_entries jsonData);
             keysToTranslate = map fst kept;
             textsToTranslate = map snd kept
         in if textsToTranslate = [] then (Inr (JObj (own_entries jsonData)), st)
            else
              (case translateTextsBatch srv textsToTranslate st of
                 (Inl e, st') \<Rightarrow> (Inl e, st')
               | (Inr translatedTexts, st') \<Rightarrow>
                   (Inr (JObj (assign_texts keysToTranslate translatedTexts
                                 (own_entries jsonData))), st'))))"

subsection \<open>\<^verbatim>\<open>execLOCAL\<close> and its private helpers\<close>

text \<open>
  \<^verbatim>\<open>#parseLocal\<close> builds objects with the short property names \<^verbatim>\<open>type\<close>, \<^verbatim>\<open>k\<close>, \<^verbatim>\<open>v\<close>, \<^verbatim>\<open>o\<close>
  and \<^verbatim>\<open>l\<close>. An object is the list of its properties; reading a property that is not set
  gives \<^verbatim>\<open>undefined\<close>.
\<close>

type_synonym pobj = "(string \<times> jsval) list"

definition get_prop :: "pobj \<Rightarrow> string \<Rightarrow> jsval" where
  "get_prop item name = (case map_of item name of None \<Rightarrow> JUndefined | Some v \<Rightarrow> v)"

definition priv_parse_item :: "jsstring \<Rightarrow> nat \<Rightarrow> pobj" where
  "priv_parse_item l i =
     (let t = trim l; n = i + 1 in
      if t = [] then
        [(''type'', JStr (js ''e'')), (''o'', JStr l), (''l'', JNum (Finite (int n)))]
      else if startsWith t (js ''#'') then
        [(''type'', JStr (js ''c'')), (''o'', JStr l), (''l'', JNum (Finite (int n)))]
      else
        (let s = indexOf l 61 in
         if s > 0 then
           (let k = trimEnd (substring l 0 (nat s)); v = substringFrom l (nat s + 1) in
            if trim k \<noteq> [] then
              [(''type'', JStr (js ''kv'')), (''k'', JStr k), (''v'', JStr v),
               (''o'', JStr l), (''l'', JNum (Finite (int n)))]
            else [(''type'', JStr (js ''o'')), (''o'', JStr l), (''l'', JNum (Finite (int n)))])
         else [(''type'', JStr (js ''o'')), (''o'', JStr l), (''l'', JNum (Finite (int n)))]))"

definition priv_parseLocal :: "jsstring \<Rightarrow> pobj list" where
  "priv_parseLocal localContent =
     map (\<lambda>(i, l). priv_parse_item l i) (enumerate 0 (split_lines localContent))"

text \<open>String conversion of a value, as a template literal and \<^verbatim>\<open>Array.prototype.join\<close> do it.\<close>

fun number_to_string :: "jsnumber \<Rightarrow> jsstring" where
  "number_to_string (Finite i) = (if i < 0 then js ''-'' @ decimal (nat (- i)) else decimal (nat i))"
| "number_to_string NegZero = js ''0''"
| "number_to_string PosInfinity = js ''Infinity''"
| "number_to_string NegInfinity = js ''-Infinity''"
| "number_to_string NaN = js ''NaN''"

fun to_string :: "jsval \<Rightarrow> jsstring"
  and join_element :: "jsval \<Rightarrow> jsstring" where
  "to_string JUndefined = js ''undefined''"
| "to_string JNull = js ''null''"
| "to_string (JBool b) = (if b then js ''true'' else js ''false'')"
| "to_string (JNum n) = number_to_string n"
| "to_string (JStr s) = s"
| "to_string (JArr xs) = join (js '','') (map join_element xs)"
| "to_string (JObj kvs) = js ''[object Object]''"
| "join_element JUndefined = []"
| "join_element JNull = []"
| "join_element (JBool b) = (if b then js ''true'' else js ''false'')"
| "join_element (JNum n) = number_to_string n"
| "join_element (JStr s) = s"
| "join_element (JArr xs) = join (js '','') (map join_element xs)"
| "join_element (JObj kvs) = js ''[object Object]''"

definition priv_reconstructLocal :: "pobj list \<Rightarrow> jsstring" where
  "priv_reconstructLocal parsedData =
     join [10]
       (map (\<lambda>i. join_element
                   (if get_prop i ''type'' = JStr (js ''kv'') then
                      JStr (to_string (get_prop i ''k'') @ js ''='' @
                            to_string (if get_prop i ''tV'' \<noteq> JUndefined then get_prop i ''tV''
                                       else get_prop i ''v''))
                    else get_prop i ''o''))
            parsedData)"

text \<open>
  The loop that stores the translations: \<^verbatim>\<open>parsedData[originalParsedIndex].translatedValue =
  translatedText\<close> for every translated text that has an index into \<^verbatim>\<open>parsedData\<close>.
\<close>

definition store_translations :: "nat list \<Rightarrow> jsval list \<Rightarrow> pobj list \<Rightarrow> pobj list" where
  "store_translations indicesToUpdate translatedTexts parsedData =
     foldl (\<lambda>d (batchIndex, translatedText).
              if batchIndex < length indicesToUpdate \<and> indicesToUpdate ! batchIndex < length d
              then d[indicesToUpdate ! batchIndex :=
                       AList.update ''translatedValue'' translatedText
                         (d ! (indicesToUpdate ! batchIndex))]
              else d)
       parsedData (enumerate 0 translatedTexts)"

definition execLOCAL :: "(nat \<Rightarrow> response) \<Rightarrow> jsval \<Rightarrow> state \<Rightarrow> (exn + jsval) \<times> state" where
  "execLOCAL srv localContent st =
     (case localContent of
        JStr content \<Rightarrow>
          (let parsedData = priv_parseLocal content;
               kept = filter (\<lambda>(index, item).
                                get_prop item ''type'' = JStr (js ''kv'') \<and>
                                is_translatable (get_prop item ''value''))
                             (enumerate 0 parsedData);
               textsToTranslate = map (\<lambda>(index, item). get_prop item ''value'') kept;
               indicesToUpdate = map fst kept
           in if textsToTranslate = [] then (Inr localContent, st)
              else
                (case translateTextsBatch srv textsToTranslate st of
                   (Inl e, st') \<Rightarrow> (Inl e, st')
                 | (Inr translatedTexts, st') \<Rightarrow>
                     (Inr (JStr (priv_reconstructLocal
                                   (store_translations indicesToUpdate translatedTexts
                                      parsedData))), st')))
      | _ \<Rightarrow> (Inr localContent, st))"

text \<open>A result map all of whose values are strings.\<close>

definition all_strings :: "jsmap \<Rightarrow> bool" where
  "all_strings m \<longleftrightarrow> (\<forall>v \<in> snd ` set m. \<exists>s. v = JStr s)"

section \<open>\<^verbatim>\<open>LangTranslate\<close>, the translator that calls DeepL\<close>

text \<open>
  What \<^verbatim>\<open>translateText\<close> of the DeepL client does with a request: it resolves to a result
  whose \<^verbatim>\<open>text\<close> is a string, or it throws one of the errors that \<^verbatim>\<open>_translateText\<close> tells
  apart by \<^verbatim>\<open>instanceof\<close> (\<open>OtherError\<close> is any value that is not a \<^verbatim>\<open>DeepLError\<close>). The
  state of this translator is the list of the texts sent so far; the service answers the
  \<open>n\<close>-th request with \<open>srv n\<close>. The lines written to the console and the waiting between
  requests are left out, and so is the test of \<^verbatim>\<open>#deeplTranslator\<close>: the constructor throws
  unless it has set it.
\<close>

datatype deepl_error =
    QuotaExceededError
  | AuthorizationError
  | RateLimitExceededError
  | TooManyRequestsError
  | ConnectionError
  | DeepLError
  | OtherError

datatype deepl_outcome = TextResult jsstring | Throws deepl_error

type_synonym deepl_state = "jsstring list"

definition LangTranslate_translateText ::
  "(nat \<Rightarrow> deepl_outcome) \<Rightarrow> jsval \<Rightarrow> deepl_state \<Rightarrow> (exn + jsval) \<times> deepl_state" where
  "LangTranslate_translateText srv t st =
     (if \<not> is_translatable t then (Inr t, st)
      else
        (case srv (length st) of
           TextResult r \<Rightarrow> (Inr (JStr r), st @ [the_string t])
         | Throws QuotaExceededError \<Rightarrow>
             (Inl (Error (js ''DeepL Quota Exceeded'')), st @ [the_string t])
         | Throws AuthorizationError \<Rightarrow>
             (Inl (Error (js ''DeepL Authorization Failed. Check API Key.'')),
              st @ [the_string t])
         | Throws e \<Rightarrow> (Inr t, st @ [the_string t])))"

text \<open>
  \<^verbatim>\<open>jsonData[key]\<close> for a key of \<^verbatim>\<open>Object.keys(jsonData)\<close>, and the assignment
  \<^verbatim>\<open>translatedData[key] = v\<close> to the object that \<^verbatim>\<open>execJSON\<close> has created with \<^verbatim>\<open>{}\<close>. That
  object inherits the accessor \<^verbatim>\<open>__proto__\<close> of \<^verbatim>\<open>Object.prototype\<close>: as long as it has no own
  property of that name, an assignment to \<^verbatim>\<open>__proto__\<close> runs the setter and makes no property.
  Every other assignment sets the own property, or adds it after the properties there are.
\<close>

definition member_value :: "jsval \<Rightarrow> jsstring \<Rightarrow> jsval" where
  "member_value obj k = (case own_property obj k of None \<Rightarrow> JUndefined | Some v \<Rightarrow> v)"

definition assign_member ::
  "(jsstring \<times> jsval) list \<Rightarrow> jsstring \<Rightarrow> jsval \<Rightarrow> (jsstring \<times> jsval) list" where
  "assign_member props k v =
     (if k = js ''__proto__'' \<and> map_of props k = None then props
      else AList.update k v props)"

text \<open>
  The loop \<^verbatim>\<open>for (const key of keys)\<close> of \<^verbatim>\<open>LangTranslate.execJSON\<close>, over the keys that
  remain, and the method.
\<close>

fun LangTranslate_keys_loop ::
  "(nat \<Rightarrow> deepl_outcome) \<Rightarrow> jsval \<Rightarrow> jsstring list \<Rightarrow> (jsstring \<times> jsval) list
     \<Rightarrow> deepl_state \<Rightarrow> (exn + (jsstring \<times> jsval) list) \<times> deepl_state" where
  "LangTranslate_keys_loop srv jsonData [] translatedData st = (Inr translatedData, st)"
| "LangTranslate_keys_loop srv jsonData (key # keys) translatedData st =
     (let originalValue = member_value jsonData key in
      if is_translatable originalValue then
        (case LangTranslate_translateText srv originalValue st of
           (Inr t, st') \<Rightarrow>
             LangTranslate_keys_loop srv jsonData keys (assign_member translatedData key t) st'
         | (Inl e, st') \<Rightarrow>
             if message e = js ''DeepL Quota Exceeded'' \<or>
                message e = js ''DeepL Authorization Failed. Check API Key.''
             then (Inl e, st')
             else LangTranslate_keys_loop srv jsonData keys
                    (assign_member translatedData key originalValue) st')
      else LangTranslate_keys_loop srv jsonData keys
             (assign_member translatedData key originalValue) st)"

definition LangTranslate_execJSON ::
  "(nat \<Rightarrow> deepl_outcome) \<Rightarrow> jsval \<Rightarrow> deepl_state \<Rightarrow> (exn + jsval) \<times> deepl_state" where
  "LangTranslate_execJSON srv jsonData st =
     (if \<not> is_object jsonData
      then (Inl (Error (js ''Input jsonData must be a non-null object for execJSON().'')), st)
      else
        (case LangTranslate_keys_loop srv jsonData (map fst (own_entries jsonData)) [] st of
           (Inl e, st') \<Rightarrow> (Inl e, st')
         | (Inr translatedData, st') \<Rightarrow> (Inr (JObj translatedData), st')))"


section \<open>\<^verbatim>\<open>OpenAITranslator.translatePatchouliBookObject\<close>\<close>

definition translatableKeys :: "jsstring list" where
  "translatableKeys =
     [js ''name'', js ''title'', js ''header'', js ''text'', js ''advancement_title'',
      js ''subtitle'', js ''description'']"

record extracted_item =
  item_path :: "jsstring list"
  originalText :: jsstring




subsection \<open>The store\<close>

text \<open>
  The method reads the object it is given and writes into a copy of it, so its model keeps
  objects in a store: a value is a primitive or a reference to a cell of the store, and a
  cell is an object (its own properties in enumeration order) or an array. A new cell is put
  at the end of the store.
\<close>

datatype hval = HUndefined | HNull | HBool bool | HNum jsnumber | HStr jsstring | HRef nat

datatype hobj = HObject "(jsstring \<times> hval) list" | HArray "hval list"

type_synonym store = "hobj list"

text \<open>\<^verbatim>\<open>typeof v === 'object' && v !== null\<close> for a value of the store.\<close>

fun is_ref :: "hval \<Rightarrow> bool" where
  "is_ref (HRef a) = True"
| "is_ref v = False"










text \<open>
  \<open>stored h hv v\<close>: in the store \<open>h\<close>, the value \<open>v\<close> is what is below \<open>hv\<close>.
\<close>

fun stored :: "store \<Rightarrow> hval \<Rightarrow> jsval \<Rightarrow> bool"
  and stored_props :: "store \<Rightarrow> (jsstring \<times> hval) list \<Rightarrow> (jsstring \<times> jsval) list \<Rightarrow> bool"
  and stored_elements :: "store \<Rightarrow> hval list \<Rightarrow> jsval list \<Rightarrow> bool" where
  "stored h hv (JObj kvs) =
     (case hv of
        HRef a \<Rightarrow>
          a < length h \<and> (case h ! a of HObject hkvs \<Rightarrow> stored_props h hkvs kvs | _ \<Rightarrow> False)
      | _ \<Rightarrow> False)"
| "stored h hv (JArr xs) =
     (case hv of
        HRef a \<Rightarrow>
          a < length h \<and> (case h ! a of HArray hxs \<Rightarrow> stored_elements h hxs xs | _ \<Rightarrow> False)
      | _ \<Rightarrow> False)"
| "stored h hv JUndefined = (hv = HUndefined)"
| "stored h hv JNull = (hv = HNull)"
| "stored h hv (JBool b) = (hv = HBool b)"
| "stored h hv (JNum x) = (hv = HNum x)"
| "stored h hv (JStr s) = (hv = HStr s)"
| "stored_props h hkvs [] = (hkvs = [])"
| "stored_props h hkvs ((k, v) # rest) =
     (case hkvs of
        [] \<Rightarrow> False
      | (k', hv) # hrest \<Rightarrow> k' = k \<and> stored h hv v \<and> stored_props h hrest rest)"
| "stored_elements h hxs [] = (hxs = [])"
| "stored_elements h hxs (v # rest) =
     (case hxs of
        [] \<Rightarrow> False
      | hv # hrest \<Rightarrow> stored h hv v \<and> stored_elements h hrest rest)"

text \<open>A value that is not an object, as a value of the store.\<close>

fun primitive :: "jsval \<Rightarrow> hval" where
  "primitive JUndefined = HUndefined"
| "primitive JNull = HNull"
| "primitive (JBool b) = HBool b"
| "primitive (JNum x) = HNum x"
| "primitive (JStr s) = HStr s"
| "primitive (JArr xs) = HUndefined"
| "primitive (JObj kvs) = HUndefined"

text \<open>
  \<open>owned h hv v A\<close>: the value \<open>v\<close> is below \<open>hv\<close> as a tree whose cells are those of \<open>A\<close>,
  each of them reached once. This is how \<^verbatim>\<open>JSON.parse\<close> leaves a value in the store.
\<close>

inductive owned :: "store \<Rightarrow> hval \<Rightarrow> jsval \<Rightarrow> nat set \<Rightarrow> bool"
  and owned_props ::
    "store \<Rightarrow> (jsstring \<times> hval) list \<Rightarrow> (jsstring \<times> jsval) list \<Rightarrow> nat set \<Rightarrow> bool"
  and owned_elements :: "store \<Rightarrow> hval list \<Rightarrow> jsval list \<Rightarrow> nat set \<Rightarrow> bool" where
  owned_primitive: "\<not> is_object v \<Longrightarrow> owned h (primitive v) v {}"
| owned_object:
    "a < length h \<Longrightarrow> h ! a = HObject hkvs \<Longrightarrow> owned_props h hkvs kvs A \<Longrightarrow> a \<notin> A
       \<Longrightarrow> owned h (HRef a) (JObj kvs) (insert a A)"
| owned_array:
    "a < length h \<Longrightarrow> h ! a = HArray hxs \<Longrightarrow> owned_elements h hxs xs A \<Longrightarrow> a \<notin> A
       \<Longrightarrow> owned h (HRef a) (JArr xs) (insert a A)"
| owned_props_Nil: "owned_props h [] [] {}"
| owned_props_Cons:
    "owned h hv v A \<Longrightarrow> owned_props h hrest rest B \<Longrightarrow> A \<inter> B = {}
       \<Longrightarrow> owned_props h ((k, hv) # hrest) ((k, v) # rest) (A \<union> B)"
| owned_elements_Nil: "owned_elements h [] [] {}"
| owned_elements_Cons:
    "owned h hv v A \<Longrightarrow> owned_elements h hrest rest B \<Longrightarrow> A \<inter> B = {}
       \<Longrightarrow> owned_elements h (hv # hrest) (v # rest) (A \<union> B)"

text \<open>
  The same reads and writes in terms of the value below an object: \<open>get_member\<close> is the
  member under a key, \<open>set_member\<close> the value after an assignment to a member, and
  \<open>set_path\<close> the value below \<open>obj\<close> after \<^verbatim>\<open>setValueByPath\<close>.
\<close>

fun get_member :: "jsval \<Rightarrow> jsstring \<Rightarrow> jsval option" where
  "get_member (JObj kvs) k = map_of kvs k"
| "get_member (JArr xs) k =
     (case index_key k (length xs) of Some i \<Rightarrow> Some (xs ! i) | None \<Rightarrow> None)"
| "get_member v k = None"



fun get_path :: "jsval \<Rightarrow> jsstring list \<Rightarrow> jsval option" where
  "get_path v [] = Some v"
| "get_path v (k # ks) = (case get_member v k of None \<Rightarrow> None | Some c \<Rightarrow> get_path c ks)"





definition leaves_under :: "jsval \<Rightarrow> (jsstring list \<times> jsstring) set" where
  "leaves_under v =
     {(q, s). q \<noteq> [] \<and> last q \<in> set translatableKeys \<and>
              get_path v q = Some (JStr s) \<and> trim s \<noteq> []}"

definition visit_leaves :: "jsstring \<Rightarrow> jsval \<Rightarrow> (jsstring list \<times> jsstring) set" where
  "visit_leaves k v =
     {(q, s). last (k # q) \<in> set translatableKeys \<and>
              get_path v q = Some (JStr s) \<and> trim s \<noteq> []}"

definition prefixed :: "jsstring list \<Rightarrow> (jsstring list \<times> jsstring) set
                       \<Rightarrow> (jsstring list \<times> jsstring) set" where
  "prefixed p S = (\<lambda>(q, s). (p @ q, s)) ` S"

definition pairs_of :: "extracted_item list \<Rightarrow> (jsstring list \<times> jsstring) set" where
  "pairs_of items = (\<lambda>i. (item_path i, originalText i)) ` set items"

definition props_leaves :: "(jsstring \<times> jsval) list \<Rightarrow> (jsstring list \<times> jsstring) set" where
  "props_leaves kvs = (\<Union>(k, v) \<in> set kvs. prefixed [k] (visit_leaves k v))"

definition indexed_leaves :: "nat \<Rightarrow> jsval list \<Rightarrow> (jsstring list \<times> jsstring) set" where
  "indexed_leaves i xs =
     (\<Union>j \<in> {..<length xs}. prefixed [decimal (i + j)] (visit_leaves (decimal (i + j)) (xs ! j)))"

definition element_leaves :: "nat \<Rightarrow> jsval list \<Rightarrow> (jsstring list \<times> jsstring) set" where
  "element_leaves i xs =
     (\<Union>j \<in> {..<length xs}. prefixed [decimal (i + j)] (leaves_under (xs ! j)))"


section \<open>The cache helpers of \<^verbatim>\<open>indexModTranslator.js\<close>\<close>

text \<open>
  What a worker reports for one language file. \<^verbatim>\<open>getCacheKey\<close> reads two of its fields.
\<close>

record file_info =
  namespace :: jsstring
  sourceFilename :: jsstring
  isJson :: bool
  content :: jsstring
  originalJar :: jsstring
  originalPathInJar :: jsstring

definition PROMPT_VERSION :: jsstring where
  "PROMPT_VERSION = js ''1.1''"

text \<open>
  \<^verbatim>\<open>crypto.createHash('md5').update(keyString).digest('hex')\<close> is a library function; it is
  the parameter \<open>md5\<close>.
\<close>

definition getCacheKey ::
  "(jsstring \<Rightarrow> jsstring) \<Rightarrow> file_info \<Rightarrow> jsstring \<Rightarrow> jsstring \<Rightarrow> jsstring" where
  "getCacheKey md5 fileInfo targetLangCode promptVer =
     (let keyString = originalJar fileInfo @ js ''-'' @ originalPathInJar fileInfo @ js ''-'' @
                      targetLangCode @ js ''-'' @ promptVer
      in md5 keyString)"

text \<open>
  An error of the file system or of \<^verbatim>\<open>JSON\<close>: its \<^verbatim>\<open>code\<close> (\<^verbatim>\<open>undefined\<close> for a
  \<^verbatim>\<open>SyntaxError\<close>) and its message. The environment says how each library call ends.
\<close>

record io_error =
  code :: "jsstring option"
  io_message :: jsstring

record io_env =
  readFile :: "jsstring \<Rightarrow> io_error + jsstring"
  mkdir :: "jsstring \<Rightarrow> io_error option"
  writeFile :: "jsstring \<Rightarrow> jsstring \<Rightarrow> io_error option"
  JSON_parse :: "jsstring \<Rightarrow> io_error + jsval"
  JSON_stringify :: "jsval \<Rightarrow> io_error + jsstring"

datatype cache_log =
    Warn_cache_read jsstring jsstring
  | Warn_cache_write jsstring jsstring

record cache_state =
  written :: "(jsstring \<times> jsstring) list"
  cache_console :: "cache_log list"

definition cache_file_path :: "jsstring \<Rightarrow> jsstring \<Rightarrow> jsstring" where
  "cache_file_path CACHE_DIRECTORY cacheKey = CACHE_DIRECTORY @ js ''/'' @ cacheKey @ js ''.json''"

text \<open>\<^verbatim>\<open>try { ... } catch (error) { ... }\<close> over a result that is an error or a value.\<close>

definition try_catch :: "('e + 'a) \<times> 's \<Rightarrow> ('e \<Rightarrow> 's \<Rightarrow> ('e + 'a) \<times> 's) \<Rightarrow> ('e + 'a) \<times> 's" where
  "try_catch body handler =
     (case body of (Inl error, st) \<Rightarrow> handler error st | (Inr v, st) \<Rightarrow> (Inr v, st))"

definition readFromCache ::
  "io_env \<Rightarrow> bool \<Rightarrow> jsstring \<Rightarrow> jsstring \<Rightarrow> cache_state \<Rightarrow> (io_error + jsval) \<times> cache_state" where
  "readFromCache env CACHE_ENABLED CACHE_DIRECTORY cacheKey st =
     (if \<not> CACHE_ENABLED then (Inr JNull, st)
      else
        (let cacheFilePath = cache_file_path CACHE_DIRECTORY cacheKey in
         try_catch
           (case readFile env cacheFilePath of
              Inl error \<Rightarrow> (Inl error, st)
            | Inr cachedData \<Rightarrow> (JSON_parse env cachedData, st))
           (\<lambda>error st.
              (Inr JNull,
               if code error \<noteq> Some (js ''ENOENT'')
               then st\<lparr> cache_console := cache_console st @
                          [Warn_cache_read cacheKey (io_message error)] \<rparr>
               else st))))"

definition writeToCache ::
  "io_env \<Rightarrow> bool \<Rightarrow> jsstring \<Rightarrow> jsstring \<Rightarrow> jsval \<Rightarrow> cache_state \<Rightarrow> (io_error + unit) \<times> cache_state" where
  "writeToCache env CACHE_ENABLED CACHE_DIRECTORY cacheKey dataToCache st =
     (if \<not> CACHE_ENABLED then (Inr (), st)
      else
        (let cacheFilePath = cache_file_path CACHE_DIRECTORY cacheKey in
         try_catch
           (case mkdir env CACHE_DIRECTORY of
              Some error \<Rightarrow> (Inl error, st)
            | None \<Rightarrow>
                (case JSON_stringify env dataToCache of
                   Inl error \<Rightarrow> (Inl error, st)
                 | Inr body \<Rightarrow>
                     (case writeFile env cacheFilePath body of
                        Some error \<Rightarrow> (Inl error, st)
                      | None \<Rightarrow>
                          (Inr (), st\<lparr> written := written st @ [(cacheFilePath, body)] \<rparr>))))
           (\<lambda>error st.
              (Inr (),
               st\<lparr> cache_console := cache_console st @
                     [Warn_cache_write cacheKey (io_message error)] \<rparr>))))"


section \<open>Properties of the line format\<close>

lemma join_Cons: "join sep (x # ls) = x @ (if ls = [] then [] else sep @ join sep ls)"
  by (cases ls) auto
lemma prepend_join: "ls \<noteq> [] \<Longrightarrow> join sep (prepend c ls) = c # join sep ls"
  by (cases ls) (auto simp: join_Cons)
lemma split_lines_ne: "split_lines s \<noteq> []"
  by (induction s rule: split_lines.induct) (auto split: if_splits simp: neq_Nil_conv)
lemma join_split: "join [10] (split_lines s) = normalize_line_endings s"
  by (induction s rule: split_lines.induct)
     (auto simp: prepend_join split_lines_ne join_Cons)

lemma indexOf_ge: "- 1 \<le> indexOf l c"
  by (induction l) (auto simp: Let_def)

lemma indexOf_found: "0 \<le> indexOf l c \<Longrightarrow> nat (indexOf l c) < length l \<and> l ! nat (indexOf l c) = c"
proof (induction l)
  case Nil then show ?case by simp
next
  case (Cons x xs)
  show ?case
  proof (cases "x = c")
    case True then show ?thesis by simp
  next
    case False
    with Cons.prems have nn: "0 \<le> indexOf xs c" by (auto simp: Let_def split: if_splits)
    with Cons.IH have "nat (indexOf xs c) < length xs \<and> xs ! nat (indexOf xs c) = c" by simp
    with False nn show ?thesis by (simp add: Let_def nat_add_distrib)
  qed
qed

lemma indexOf_first: "0 \<le> indexOf l c \<Longrightarrow> c \<notin> set (take (nat (indexOf l c)) l)"
proof (induction l)
  case Nil then show ?case by simp
next
  case (Cons x xs)
  show ?case
  proof (cases "x = c")
    case True then show ?thesis by simp
  next
    case False
    with Cons.prems have nn: "0 \<le> indexOf xs c" by (auto simp: Let_def split: if_splits)
    with Cons.IH have "c \<notin> set (take (nat (indexOf xs c)) xs)" by simp
    with False nn show ?thesis by (simp add: Let_def nat_add_distrib)
  qed
qed

lemma indexOf_absent: "indexOf l c < 0 \<longleftrightarrow> c \<notin> set l"
proof (induction l)
  case Nil then show ?case by simp
next
  case (Cons x xs)
  then show ?case using indexOf_ge[of xs c] by (auto simp: Let_def)
qed

lemma indexOf_split: "c \<notin> set k \<Longrightarrow> indexOf (k @ c # v) c = int (length k)"
  by (induction k) (auto simp: Let_def)

lemma trimEnd_id: "trimEnd xs = xs \<longleftrightarrow> xs = [] \<or> \<not> isWhiteSpace (last xs)"
proof (cases xs rule: rev_cases)
  case Nil then show ?thesis by (simp add: trimEnd_def)
next
  case (snoc ys y)
  show ?thesis
  proof (cases "isWhiteSpace y")
    case True
    have "length (trimEnd xs) \<le> length ys"
      using True snoc length_dropWhile_le[of isWhiteSpace "rev ys"] by (simp add: trimEnd_def)
    then have "trimEnd xs \<noteq> xs" using snoc by auto
    with True snoc show ?thesis by simp
  next
    case False
    with snoc show ?thesis by (simp add: trimEnd_def)
  qed
qed

lemma substring_0: "n \<le> length s \<Longrightarrow> substring s 0 n = take n s"
  by (simp add: substring_def Let_def min_def)

lemma originalLine_parse_line [simp]: "originalLine (parse_line l i) = l"
  by (simp add: parse_line_def plain_line_def Let_def)

lemma lineNumber_parse_line [simp]: "lineNumber (parse_line l i) = i + 1"
  by (simp add: parse_line_def plain_line_def Let_def)

lemma reconstruct_parse_line:
  assumes "ltype (parse_line l i) = T_kv \<Longrightarrow> \<not> space_before_separator l"
  shows "reconstruct_line (parse_line l i) = l"
proof (cases "ltype (parse_line l i) = T_kv")
  case False
  then show ?thesis by (simp add: reconstruct_line_def)
next
  case True
  define n where "n = nat (indexOf l 61)"
  from True have pos: "0 < indexOf l 61"
    by (auto simp: parse_line_def plain_line_def Let_def split: if_splits)
  then have n: "n < length l" "l ! n = 61" "0 < n"
    using indexOf_found[of l 61] by (auto simp: n_def)
  have p: "parse_line l i = \<lparr> ltype = T_kv, originalLine = l, lineNumber = i + 1,
       lkey = Some (trimEnd (take n l)), lvalue = Some (drop (n + 1) l), translatedValue = None \<rparr>"
    using True pos n
    by (auto simp: parse_line_def plain_line_def Let_def substring_0 substringFrom_def n_def split: if_splits)
  from assms[OF True] pos have "\<not> isWhiteSpace (l ! (n - 1))"
    by (simp add: space_before_separator_def Let_def n_def)
  moreover have "last (take n l) = l ! (n - 1)"
  proof -
    have "take n l \<noteq> []" using n by auto
    then have "last (take n l) = take n l ! (length (take n l) - 1)" by (rule last_conv_nth)
    then show ?thesis using n by simp
  qed
  ultimately have "trimEnd (take n l) = take n l"
    by (simp add: trimEnd_id)
  then have "reconstruct_line (parse_line l i) = take n l @ 61 # drop (n + 1) l"
    by (simp add: p reconstruct_line_def tmpl_def js_def)
  also have "\<dots> = l" using n id_take_nth_drop[of n l] by simp
  finally show ?thesis .
qed

lemma parseLocalContent_nth:
  "i < length (split_lines s) \<Longrightarrow> parseLocalContent s ! i = parse_line (split_lines s ! i) i"
  by (simp add: parseLocalContent_def Let_def nth_enumerate_eq)

lemma length_parseLocalContent [simp]: "length (parseLocalContent s) = length (split_lines s)"
  by (simp add: parseLocalContent_def)

lemma trimEnd_Nil: "trimEnd x = [] \<longleftrightarrow> (\<forall>c \<in> set x. isWhiteSpace c)"
  by (simp add: trimEnd_def dropWhile_eq_Nil_conv)

lemma trimStart_blank: "(\<forall>c \<in> set (trimStart x). isWhiteSpace c) \<longleftrightarrow> (\<forall>c \<in> set x. isWhiteSpace c)"
proof
  assume a: "\<forall>c \<in> set (trimStart x). isWhiteSpace c"
  have "dropWhile isWhiteSpace x = []"
  proof (rule ccontr)
    assume ne: "dropWhile isWhiteSpace x \<noteq> []"
    then have "\<not> isWhiteSpace (hd (dropWhile isWhiteSpace x))" by (rule hd_dropWhile)
    moreover have "hd (dropWhile isWhiteSpace x) \<in> set (trimStart x)"
      using ne by (simp add: trimStart_def)
    ultimately show False using a by blast
  qed
  then show "\<forall>c \<in> set x. isWhiteSpace c" by (simp add: dropWhile_eq_Nil_conv)
next
  assume "\<forall>c \<in> set x. isWhiteSpace c"
  then show "\<forall>c \<in> set (trimStart x). isWhiteSpace c"
    using set_dropWhileD[of _ isWhiteSpace x] by (auto simp: trimStart_def)
qed

lemma trim_Nil: "trim x = [] \<longleftrightarrow> (\<forall>c \<in> set x. isWhiteSpace c)"
  by (simp add: trim_def trimEnd_Nil trimStart_blank)

lemma trimEnd_blank: "(\<forall>c \<in> set (trimEnd x). isWhiteSpace c) \<longleftrightarrow> (\<forall>c \<in> set x. isWhiteSpace c)"
proof -
  have "rev x = takeWhile isWhiteSpace (rev x) @ dropWhile isWhiteSpace (rev x)" by simp
  then have "set (rev x) = set (takeWhile isWhiteSpace (rev x)) \<union> set (dropWhile isWhiteSpace (rev x))"
    by (metis set_append)
  moreover have "\<forall>c \<in> set (takeWhile isWhiteSpace (rev x)). isWhiteSpace c"
    by (auto dest: set_takeWhileD)
  ultimately show ?thesis by (auto simp: trimEnd_def)
qed

lemma trim_trimEnd: "trim (trimEnd k) = [] \<longleftrightarrow> trim k = []"
  by (simp add: trim_Nil trimEnd_blank)

lemma first_separator_unique:
  assumes "l = k @ c # v" "c \<notin> set k"
  shows "indexOf l c = int (length k)"
  using assms by (simp add: indexOf_split)

lemma ltype_parse_line_kv:
  "ltype (parse_line l i) = T_kv \<longleftrightarrow>
     trim l \<noteq> [] \<and> \<not> startsWith (trim l) (js ''#'') \<and> 0 < indexOf l 61 \<and>
     trim (take (nat (indexOf l 61)) l) \<noteq> []"
proof (cases "0 < indexOf l 61")
  case False
  then show ?thesis by (simp add: parse_line_def plain_line_def Let_def)
next
  case True
  then have "nat (indexOf l 61) \<le> length l" using indexOf_found[of l 61] by simp
  then show ?thesis using True
    by (simp add: parse_line_def plain_line_def Let_def substring_0 trim_trimEnd)
qed

lemma parse_line_kv_fields:
  assumes "ltype (parse_line l i) = T_kv"
  shows "lkey (parse_line l i) = Some (trimEnd (take (nat (indexOf l 61)) l)) \<and>
         lvalue (parse_line l i) = Some (drop (nat (indexOf l 61) + 1) l) \<and>
         translatedValue (parse_line l i) = None"
proof -
  from assms have pos: "0 < indexOf l 61" by (simp add: ltype_parse_line_kv)
  then have "nat (indexOf l 61) \<le> length l" using indexOf_found[of l 61] by simp
  then show ?thesis using assms pos
    by (auto simp: parse_line_def plain_line_def Let_def substring_0 substringFrom_def split: if_splits)
qed

lemma separator_decomposition:
  "0 < indexOf l 61 \<longleftrightarrow> (\<exists>k v. l = k @ 61 # v \<and> 61 \<notin> set k \<and> k \<noteq> [])"
proof
  assume pos: "0 < indexOf l 61"
  let ?n = "nat (indexOf l 61)"
  from pos have n: "?n < length l" "l ! ?n = 61" using indexOf_found[of l 61] by auto
  have "l = take ?n l @ 61 # drop (Suc ?n) l" using n id_take_nth_drop[of ?n l] by simp
  moreover have "61 \<notin> set (take ?n l)" using pos indexOf_first[of l 61] by simp
  moreover have "take ?n l \<noteq> []" using pos n by auto
  ultimately show "\<exists>k v. l = k @ 61 # v \<and> 61 \<notin> set k \<and> k \<noteq> []" by blast
next
  assume "\<exists>k v. l = k @ 61 # v \<and> 61 \<notin> set k \<and> k \<noteq> []"
  then obtain k v where kv: "l = k @ 61 # v" "61 \<notin> set k" "k \<noteq> []" by blast
  then have "indexOf l 61 = int (length k)" by (simp add: indexOf_split)
  with kv show "0 < indexOf l 61" by simp
qed

lemma ltype_parse_line_empty: "ltype (parse_line l i) = T_empty \<longleftrightarrow> trim l = []"
  by (simp add: parse_line_def plain_line_def Let_def)

lemma ltype_parse_line_comment:
  "ltype (parse_line l i) = T_comment \<longleftrightarrow> trim l \<noteq> [] \<and> startsWith (trim l) (js ''#'')"
  by (simp add: parse_line_def plain_line_def Let_def)

lemma parse_line_classification:
  "originalLine (parse_line l i) = l \<and> lineNumber (parse_line l i) = i + 1 \<and>
   (ltype (parse_line l i) = T_empty \<longleftrightarrow> trim l = []) \<and>
   (ltype (parse_line l i) = T_comment \<longleftrightarrow> trim l \<noteq> [] \<and> startsWith (trim l) (js ''#'')) \<and>
   (ltype (parse_line l i) = T_kv \<longleftrightarrow>
      trim l \<noteq> [] \<and> \<not> startsWith (trim l) (js ''#'') \<and>
      (\<exists>k v. l = k @ 61 # v \<and> 61 \<notin> set k \<and> k \<noteq> [] \<and> trim k \<noteq> [])) \<and>
   (\<forall>k v. ltype (parse_line l i) = T_kv \<and> l = k @ 61 # v \<and> 61 \<notin> set k \<longrightarrow>
      lkey (parse_line l i) = Some (trimEnd k) \<and> lvalue (parse_line l i) = Some v)"
proof -
  have kv: "ltype (parse_line l i) = T_kv \<longleftrightarrow>
      trim l \<noteq> [] \<and> \<not> startsWith (trim l) (js ''#'') \<and>
      (\<exists>k v. l = k @ 61 # v \<and> 61 \<notin> set k \<and> k \<noteq> [] \<and> trim k \<noteq> [])" (is "?L \<longleftrightarrow> ?R")
  proof
    assume L: ?L
    then have pos: "0 < indexOf l 61" and t: "trim (take (nat (indexOf l 61)) l) \<noteq> []"
      by (simp_all add: ltype_parse_line_kv)
    from pos obtain k v where d: "l = k @ 61 # v" "61 \<notin> set k" "k \<noteq> []"
      using separator_decomposition[of l] by blast
    then have "nat (indexOf l 61) = length k" by (simp add: indexOf_split)
    with t d have "trim k \<noteq> []" by simp
    with L d show ?R by (auto simp: ltype_parse_line_kv)
  next
    assume R: ?R
    then obtain k v where d: "l = k @ 61 # v" "61 \<notin> set k" "k \<noteq> []" "trim k \<noteq> []" by blast
    then have "indexOf l 61 = int (length k)" by (simp add: indexOf_split)
    with d R show ?L by (simp add: ltype_parse_line_kv)
  qed
  have fields: "lkey (parse_line l i) = Some (trimEnd k) \<and> lvalue (parse_line l i) = Some v"
    if "ltype (parse_line l i) = T_kv" "l = k @ 61 # v" "61 \<notin> set k" for k v
  proof -
    from that have "indexOf l 61 = int (length k)" by (simp add: indexOf_split)
    with parse_line_kv_fields[OF that(1)] that(2) show ?thesis by simp
  qed
  have all_fields: "\<forall>k v. ltype (parse_line l i) = T_kv \<and> l = k @ 61 # v \<and> 61 \<notin> set k \<longrightarrow>
      lkey (parse_line l i) = Some (trimEnd k) \<and> lvalue (parse_line l i) = Some v"
    using fields by blast
  show ?thesis
    using kv all_fields ltype_parse_line_empty[of l i] ltype_parse_line_comment[of l i]
      originalLine_parse_line[of l i] lineNumber_parse_line[of l i]
    by blast
qed

lemma extractLocalTexts_only_kv:
  assumes "t \<in> set (extractLocalTexts ps)"
  shows "\<exists>p \<in> set ps. ltype p = T_kv \<and> lvalue p = Some (info_text t) \<and>
           trim (info_text t) \<noteq> [] \<and> info_text t \<noteq> [] \<and> originalLineNumber t = lineNumber p"
proof -
  from assms obtain p where p: "p \<in> set ps" "translatable_line p"
    "t = \<lparr> info_text = tmpl (lvalue p), originalLineNumber = lineNumber p \<rparr>"
    by (auto simp: extractLocalTexts_def)
  from p(2) obtain v where v: "ltype p = T_kv" "lvalue p = Some v" "trim v \<noteq> []"
    by (auto simp: translatable_line_def split: option.splits)
  then have "v \<noteq> []" by (auto simp: trim_Nil)
  with p v show ?thesis by (auto simp: tmpl_def)
qed

lemmas parse_defs = js_def reconstructLocal_def parseLocalContent_def parse_line_def plain_line_def
  reconstruct_line_def trim_def trimStart_def trimEnd_def isWhiteSpace_def startsWith_def
  substring_def substringFrom_def tmpl_def extractLocalTexts_def translatable_line_def
  space_before_separator_def Let_def

text \<open>
  Claim C1, as amended. For every input in which no key-value line has white space directly
  before its first \<open>=\<close>, reconstructing the parsed lines with no translated value set gives
  the input back with every CR LF replaced by LF.
\<close>

theorem reconstruct_parse_roundtrip:
  assumes "\<forall>p \<in> set (parseLocalContent s). ltype p = T_kv \<longrightarrow> \<not> space_before_separator (originalLine p)"
  shows "reconstructLocal (parseLocalContent s) = normalize_line_endings s"
proof -
  have "map reconstruct_line (parseLocalContent s) = split_lines s"
  proof (rule nth_equalityI)
    show "length (map reconstruct_line (parseLocalContent s)) = length (split_lines s)" by simp
  next
    fix i assume "i < length (map reconstruct_line (parseLocalContent s))"
    then have i: "i < length (split_lines s)" by simp
    then have mem: "parse_line (split_lines s ! i) i \<in> set (parseLocalContent s)"
      by (metis parseLocalContent_nth length_parseLocalContent nth_mem)
    have "reconstruct_line (parse_line (split_lines s ! i) i) = split_lines s ! i"
      by (rule reconstruct_parse_line) (use assms mem in auto)
    then show "map reconstruct_line (parseLocalContent s) ! i = split_lines s ! i"
      using i by (simp add: parseLocalContent_nth)
  qed
  then show ?thesis by (simp add: reconstructLocal_def join_split)
qed

theorem reconstruct_parse_roundtrip_witness:
  "filter (\<lambda>p. ltype p = T_kv \<and> space_before_separator (originalLine p))
     (parseLocalContent (js ''# note'' @ [13, 10, 13, 10] @ js ''greeting=Hello %s!'')) = [] \<and>
   reconstructLocal (parseLocalContent (js ''# note'' @ [13, 10, 13, 10] @ js ''greeting=Hello %s!''))
     = js ''# note'' @ [10, 10] @ js ''greeting=Hello %s!''"
proof -
  have h: "\<forall>p \<in> set (parseLocalContent (js ''# note'' @ [13, 10, 13, 10] @ js ''greeting=Hello %s!'')).
      ltype p = T_kv \<longrightarrow> \<not> space_before_separator (originalLine p)"
    by (simp add: parse_defs)
  have e: "filter (\<lambda>p. ltype p = T_kv \<and> space_before_separator (originalLine p))
     (parseLocalContent (js ''# note'' @ [13, 10, 13, 10] @ js ''greeting=Hello %s!'')) = []"
    by (simp add: parse_defs)
  show ?thesis
    using e reconstruct_parse_roundtrip [OF h] by (simp add: js_def)
qed

text \<open>
  Claim C1 as stated fails: the key of a key-value line is cut at its last non-blank unit
  (\<^verbatim>\<open>trimEnd\<close>), so \<^verbatim>\<open>a =b\<close> comes back as \<^verbatim>\<open>a=b\<close>.
\<close>

theorem roundtrip_counterexample:
  "reconstructLocal (parseLocalContent (js ''a =b'')) \<noteq> normalize_line_endings (js ''a =b'')"
  by (simp add: parse_defs)

text \<open>
  Claim C7, as amended: the separator is the first \<open>=\<close> of the line, escaped or not.
  \<^verbatim>\<open>parseLocalContent\<close> yields one parsed line per line of the input (split at LF and
  CR LF), with the line itself and its 1-based number. The line is blank iff it trims to
  the empty string; a comment iff it is not blank and its trimmed text starts with \<open>#\<close>;
  a key-value line iff it is neither and it reads \<open>k = v\<close> with no \<open>=\<close> in \<open>k\<close>, \<open>k\<close> not
  empty and not blank, and then the key is \<open>k\<close> without its trailing white space and the value
  is \<open>v\<close>; and unrecognised otherwise. Every extracted text is the value of a key-value line,
  is not empty, and carries the number of its line.
\<close>

theorem parseLocalContent_classification:
  "length (parseLocalContent s) = length (split_lines s) \<and>
   (\<forall>i < length (split_lines s).
      (let l = split_lines s ! i; p = parseLocalContent s ! i in
       originalLine p = l \<and> lineNumber p = i + 1 \<and>
       (ltype p = T_empty \<longleftrightarrow> trim l = []) \<and>
       (ltype p = T_comment \<longleftrightarrow> trim l \<noteq> [] \<and> startsWith (trim l) (js ''#'')) \<and>
       (ltype p = T_kv \<longleftrightarrow>
          trim l \<noteq> [] \<and> \<not> startsWith (trim l) (js ''#'') \<and>
          (\<exists>k v. l = k @ 61 # v \<and> 61 \<notin> set k \<and> k \<noteq> [] \<and> trim k \<noteq> [])) \<and>
       (\<forall>k v. ltype p = T_kv \<and> l = k @ 61 # v \<and> 61 \<notin> set k \<longrightarrow>
          lkey p = Some (trimEnd k) \<and> lvalue p = Some v) \<and>
       (ltype p = T_other \<longleftrightarrow>
          trim l \<noteq> [] \<and> \<not> startsWith (trim l) (js ''#'') \<and>
          \<not> (\<exists>k v. l = k @ 61 # v \<and> 61 \<notin> set k \<and> k \<noteq> [] \<and> trim k \<noteq> [])))) \<and>
   (\<forall>t \<in> set (extractLocalTexts (parseLocalContent s)).
      \<exists>p \<in> set (parseLocalContent s).
        ltype p = T_kv \<and> lvalue p = Some (info_text t) \<and> info_text t \<noteq> [] \<and>
        originalLineNumber t = lineNumber p)"
proof (intro conjI allI impI ballI)
  show "length (parseLocalContent s) = length (split_lines s)" by simp
next
  fix i assume i: "i < length (split_lines s)"
  define l where "l = split_lines s ! i"
  have p: "parseLocalContent s ! i = parse_line l i"
    using i by (simp add: parseLocalContent_nth l_def)
  have other: "ltype (parse_line l i) = T_other \<longleftrightarrow>
      ltype (parse_line l i) \<noteq> T_empty \<and> ltype (parse_line l i) \<noteq> T_comment \<and>
      ltype (parse_line l i) \<noteq> T_kv"
    by (cases "ltype (parse_line l i)") simp_all
  have "originalLine (parse_line l i) = l \<and> lineNumber (parse_line l i) = i + 1 \<and>
       (ltype (parse_line l i) = T_empty \<longleftrightarrow> trim l = []) \<and>
       (ltype (parse_line l i) = T_comment \<longleftrightarrow> trim l \<noteq> [] \<and> startsWith (trim l) (js ''#'')) \<and>
       (ltype (parse_line l i) = T_kv \<longleftrightarrow>
          trim l \<noteq> [] \<and> \<not> startsWith (trim l) (js ''#'') \<and>
          (\<exists>k v. l = k @ 61 # v \<and> 61 \<notin> set k \<and> k \<noteq> [] \<and> trim k \<noteq> [])) \<and>
       (\<forall>k v. ltype (parse_line l i) = T_kv \<and> l = k @ 61 # v \<and> 61 \<notin> set k \<longrightarrow>
          lkey (parse_line l i) = Some (trimEnd k) \<and> lvalue (parse_line l i) = Some v) \<and>
       (ltype (parse_line l i) = T_other \<longleftrightarrow>
          trim l \<noteq> [] \<and> \<not> startsWith (trim l) (js ''#'') \<and>
          \<not> (\<exists>k v. l = k @ 61 # v \<and> 61 \<notin> set k \<and> k \<noteq> [] \<and> trim k \<noteq> []))"
    using parse_line_classification[of l i] other by blast
  then show "let l = split_lines s ! i; p = parseLocalContent s ! i in
       originalLine p = l \<and> lineNumber p = i + 1 \<and>
       (ltype p = T_empty \<longleftrightarrow> trim l = []) \<and>
       (ltype p = T_comment \<longleftrightarrow> trim l \<noteq> [] \<and> startsWith (trim l) (js ''#'')) \<and>
       (ltype p = T_kv \<longleftrightarrow>
          trim l \<noteq> [] \<and> \<not> startsWith (trim l) (js ''#'') \<and>
          (\<exists>k v. l = k @ 61 # v \<and> 61 \<notin> set k \<and> k \<noteq> [] \<and> trim k \<noteq> [])) \<and>
       (\<forall>k v. ltype p = T_kv \<and> l = k @ 61 # v \<and> 61 \<notin> set k \<longrightarrow>
          lkey p = Some (trimEnd k) \<and> lvalue p = Some v) \<and>
       (ltype p = T_other \<longleftrightarrow>
          trim l \<noteq> [] \<and> \<not> startsWith (trim l) (js ''#'') \<and>
          \<not> (\<exists>k v. l = k @ 61 # v \<and> 61 \<notin> set k \<and> k \<noteq> [] \<and> trim k \<noteq> []))"
    unfolding Let_def p l_def[symmetric] .
next
  fix t assume "t \<in> set (extractLocalTexts (parseLocalContent s))"
  from extractLocalTexts_only_kv[OF this]
  show "\<exists>p \<in> set (parseLocalContent s).
        ltype p = T_kv \<and> lvalue p = Some (info_text t) \<and> info_text t \<noteq> [] \<and>
        originalLineNumber t = lineNumber p" by blast
qed

theorem parseLocalContent_classification_witness:
  "(1::nat) < length (split_lines (js ''# c'' @ [13, 10] @ js ''k = v'' @ [10] @ js ''=x'')) \<and>
   ltype (parseLocalContent (js ''# c'' @ [13, 10] @ js ''k = v'' @ [10] @ js ''=x'') ! 1) = T_kv \<and>
   lkey (parseLocalContent (js ''# c'' @ [13, 10] @ js ''k = v'' @ [10] @ js ''=x'') ! 1) = Some (js ''k'') \<and>
   lvalue (parseLocalContent (js ''# c'' @ [13, 10] @ js ''k = v'' @ [10] @ js ''=x'') ! 1) = Some (js '' v'') \<and>
   lineNumber (parseLocalContent (js ''# c'' @ [13, 10] @ js ''k = v'' @ [10] @ js ''=x'') ! 1) = 2 \<and>
   \<lparr> info_text = js '' v'', originalLineNumber = 2 \<rparr>
     \<in> set (extractLocalTexts (parseLocalContent (js ''# c'' @ [13, 10] @ js ''k = v'' @ [10] @ js ''=x'')))"
  using parseLocalContent_classification [of "js ''# c'' @ [13, 10] @ js ''k = v'' @ [10] @ js ''=x''"]
  by (simp add: parse_defs)

text \<open>
  Claim C7 as stated fails on the word \<^emph>\<open>unescaped\<close>: in the line \<^verbatim>\<open>a\=b=c\<close> the first
  unescaped \<open>=\<close> is the one at position 4, and the code cuts the key at position 2.
\<close>

theorem unescaped_separator_counterexample:
  "spec_unescaped_separator [97, 92, 61, 98, 61, 99] = 4 \<and>
   lkey (parse_line [97, 92, 61, 98, 61, 99] 0) = Some [97, 92] \<and>
   lkey (parse_line [97, 92, 61, 98, 61, 99] 0)
     \<noteq> Some (trimEnd (substring [97, 92, 61, 98, 61, 99] 0
                        (nat (spec_unescaped_separator [97, 92, 61, 98, 61, 99]))))"
  by (simp add: parse_defs)


section \<open>Properties of \<^verbatim>\<open>translateBatchInternal\<close>\<close>

lemma keys_foldl_update:
  "fst ` set (foldl (\<lambda>m (k, v). AList.update k v m) m es) = fst ` set m \<union> fst ` set es"
proof (induction es arbitrary: m)
  case Nil then show ?case by simp
next
  case (Cons e es)
  obtain k v where e: "e = (k, v)" by (cases e)
  have "fst ` set (foldl (\<lambda>m (k, v). AList.update k v m) (AList.update k v m) es)
          = fst ` set (AList.update k v m) \<union> fst ` set es" by (rule Cons.IH)
  also have "\<dots> = fst ` set m \<union> fst ` set (e # es)" by (simp add: dom_update e)
  finally show ?case by (simp add: e)
qed

lemma keys_Map_of_entries: "fst ` set (Map_of_entries es) = fst ` set es"
  by (simp add: Map_of_entries_def keys_foldl_update)

lemma map_of_foldl_update:
  "map_of (foldl (\<lambda>m (k, v). AList.update k v m) m es) = map_of m ++ map_of (rev es)"
proof (induction es arbitrary: m)
  case Nil then show ?case by simp
next
  case (Cons e es)
  obtain k v where e: "e = (k, v)" by (cases e)
  have "map_of (foldl (\<lambda>m (k, v). AList.update k v m) (AList.update k v m) es)
          = map_of (AList.update k v m) ++ map_of (rev es)" by (rule Cons.IH)
  also have "\<dots> = (map_of m ++ [k \<mapsto> v]) ++ map_of (rev es)" by (simp add: update_conv')
  also have "\<dots> = map_of m ++ ([k \<mapsto> v] ++ map_of (rev es))" by simp
  also have "[k \<mapsto> v] ++ map_of (rev es) = map_of (rev (e # es))" by (simp add: e)
  finally show ?case by (simp add: e)
qed

lemma map_of_Map_of_entries: "map_of (Map_of_entries (m1 @ m2)) = map_of (rev m1) ++ map_of (rev m2)"
  by (simp add: Map_of_entries_def map_of_foldl_update)

lemma foldl_update_fresh:
  assumes "distinct (map fst es)" "fst ` set m \<inter> fst ` set es = {}"
  shows "foldl (\<lambda>m (k, v). AList.update k v m) m es = m @ es"
  using assms
proof (induction es arbitrary: m)
  case Nil then show ?case by simp
next
  case (Cons e es)
  obtain k v where e: "e = (k, v)" by (cases e)
  from Cons.prems have k: "k \<notin> fst ` set m" by (auto simp: e)
  then have u: "AList.update k v m = m @ [(k, v)]"
    by (induction m) auto
  have "foldl (\<lambda>m (k, v). AList.update k v m) (m @ [(k, v)]) es = (m @ [(k, v)]) @ es"
    using Cons.prems by (intro Cons.IH) (auto simp: e)
  then show ?case by (simp add: e u)
qed

lemma enumerate_zip: "enumerate n xs = zip [n..<n + length xs] xs"
  by (rule enumerate_eq_zip)

lemma fallback_all_keys: "fst ` set (fallback_all idxs texts m) = fst ` set m \<union> set idxs"
proof -
  have "fst ` set (map (\<lambda>(i, promptIndex). (promptIndex, text_at texts i)) (enumerate 0 idxs)) = set idxs"
    by (force simp: enumerate_eq_zip in_set_zip in_set_conv_nth)
  moreover have "fallback_all idxs texts m =
      foldl (\<lambda>m (k, v). AList.update k v m) m
        (map (\<lambda>(i, promptIndex). (promptIndex, text_at texts i)) (enumerate 0 idxs))"
    by (simp add: fallback_all_def foldl_map case_prod_unfold)
  ultimately show ?thesis by (simp add: keys_foldl_update)
qed

lemma fallback_entries:
  assumes "length idxs = length texts"
  shows "map (\<lambda>(i, promptIndex). (promptIndex, text_at texts i)) (enumerate 0 idxs)
           = zip idxs (map JStr texts)"
  using assms
  by (intro nth_equalityI) (auto simp: nth_enumerate_eq text_at_def)

lemma fallback_all_distinct:
  assumes "length idxs = length texts" "distinct idxs"
  shows "fallback_all idxs texts [] = zip idxs (map JStr texts)"
proof -
  have "fallback_all idxs texts [] =
      foldl (\<lambda>m (k, v). AList.update k v m) []
        (map (\<lambda>(i, promptIndex). (promptIndex, text_at texts i)) (enumerate 0 idxs))"
    by (simp add: fallback_all_def foldl_map case_prod_unfold)
  also have "\<dots> = foldl (\<lambda>m (k, v). AList.update k v m) [] (zip idxs (map JStr texts))"
    by (simp add: fallback_entries[OF assms(1)])
  also have "\<dots> = [] @ zip idxs (map JStr texts)"
    using assms by (intro foldl_update_fresh) simp_all
  finally show ?thesis by simp
qed

lemma given_up_sizes_append [simp]:
  "given_up_sizes (xs @ ys) = given_up_sizes xs @ given_up_sizes ys"
  by (induction xs rule: given_up_sizes.induct) auto

lemma catch_block_fatal:
  "fatal_status e \<Longrightarrow>
     \<exists>e'. catch_block e texts idxs depth m st =
        (Inl e', say (Error_api_call (length texts) depth (message e)) st) \<and> \<not> is_api_error e'"
  by (auto simp: catch_block_def fatal_status_def Let_def Error_def)

lemma catch_block_recover:
  "\<not> fatal_status e \<Longrightarrow>
     catch_block e texts idxs depth m st =
       (Inr (fallback_all idxs texts m),
        say Warn_fallback (say (Error_api_call (length texts) depth (message e)) st))"
  by (auto simp: catch_block_def fatal_status_def Let_def)

lemma not_fatal_Error [simp]: "\<not> fatal_status (Error msg)"
  by (simp add: fatal_status_def Error_def)

lemma not_fatal_TypeError [simp]: "\<not> fatal_status (TypeError msg)"
  by (simp add: fatal_status_def TypeError_def)

lemma not_api_not_fatal: "\<not> is_api_error e \<Longrightarrow> \<not> fatal_status e"
  by (simp add: fatal_status_def)

lemma requests_say [simp]: "requests (say l st) = requests st"
  by (simp add: say_def)
lemma console_say [simp]: "console (say l st) = console st @ [l]"
  by (simp add: say_def)
lemma requests_send [simp]: "requests (send t i d st) = requests st @ [(t, i, d)]"
  by (simp add: send_def)
lemma console_send [simp]: "console (send t i d st) = console st"
  by (simp add: send_def)

lemma thrown_not_api:
  assumes "translateBatchInternal srv texts idxs depth st = (Inl e, st')"
  shows "\<not> is_api_error e"
proof -
  have cb: "\<not> is_api_error e" if "catch_block x texts idxs depth m s = (Inl e, st')" for x m s
    using that by (auto simp: catch_block_def Let_def Error_def split: if_splits)
  from assms show ?thesis
    by (subst (asm) translateBatchInternal.simps)
       (auto simp: Let_def dest: cb split: if_splits response.splits prod.splits sum.splits option.splits)
qed

lemma translateBatchInternal_raises_iff:
  "(\<exists>e st'. translateBatchInternal srv texts idxs depth st = (Inl e, st')) \<longleftrightarrow>
     texts \<noteq> [] \<and> (\<exists>x. srv (length (requests st)) = Rejected x \<and> fatal_status x)"
proof -
  have sub: "\<not> fatal_status e" if "translateBatchInternal srv t i d s = (Inl e, s')" for t i d s e s'
    using thrown_not_api[OF that] by (rule not_api_not_fatal)
  show ?thesis
  proof (cases "texts = []")
    case True
    then show ?thesis by (simp add: translateBatchInternal.simps)
  next
    case False
    show ?thesis
    proof (cases "srv (length (requests st))")
      case (Rejected x)
      show ?thesis
      proof (cases "fatal_status x")
        case True
        with catch_block_fatal[OF True, of texts idxs depth "[]" "send texts idxs depth st"]
        show ?thesis using False Rejected
          by (subst translateBatchInternal.simps) (auto simp: Let_def)
      next
        case nf: False
        then show ?thesis using False Rejected
          by (subst translateBatchInternal.simps) (simp add: Let_def catch_block_recover)
      qed
    next
      case NoContent
      then show ?thesis using False
        by (subst translateBatchInternal.simps) (simp add: Let_def catch_block_recover)
    next
      case (Unparseable msg)
      then show ?thesis using False
        by (subst translateBatchInternal.simps)
           (auto simp: Let_def catch_block_recover sub split: prod.splits sum.splits)
    next
      case (Parsed j)
      have "\<not> fatal_status e"
        if "fill_results j texts ps m s = (Some e, m', s')" for ps m s e m' s'
        using that
        by (induction j texts ps m s rule: fill_results.induct)
           (auto simp: Let_def split: sum.splits if_splits option.splits jsval.splits
                 elim!: hasOwnProperty.elims)
      then show ?thesis using False Parsed
        by (subst translateBatchInternal.simps)
           (auto simp: Let_def catch_block_recover split: prod.splits option.splits)
    qed
  qed
qed

lemma resolved_batches_append:
  "resolved_batches srv n (xs @ ys) =
     resolved_batches srv n xs @ resolved_batches srv (n + length xs) ys"
  by (simp add: resolved_batches_def enumerate_append_eq)

lemma resolved_batches_Cons:
  "resolved_batches srv n (x # xs) =
     (if is_split (srv n) x then [] else [x]) @ resolved_batches srv (Suc n) xs"
  by (simp add: resolved_batches_def)

lemma resolved_batches_Nil [simp]: "resolved_batches srv n [] = []"
  by (simp add: resolved_batches_def)

lemma message_Error [simp]: "message (Error msg) = msg"
  by (simp add: Error_def)

lemma translateBatchInternal_split:
  assumes "texts \<noteq> []" "srv (length (requests st)) = Unparseable msg"
    "1 < length texts" "depth < MAX_SPLIT_DEPTH" "truncation_like msg"
    "translateBatchInternal srv (take ((length texts + 1) div 2) texts)
        (take ((length texts + 1) div 2) idxs) (depth + 1)
        (say (Warn_splitting (length texts) (depth + 1)) (send texts idxs depth st)) = (Inr m1, st3)"
    "translateBatchInternal srv (drop ((length texts + 1) div 2) texts)
        (drop ((length texts + 1) div 2) idxs) (depth + 1) st3 = (Inr m2, st4)"
  shows "translateBatchInternal srv texts idxs depth st = (Inr (Map_of_entries (m1 @ m2)), st4)"
  using assms by (subst translateBatchInternal.simps) (simp add: Let_def)

lemma translateBatchInternal_give_up:
  assumes "texts \<noteq> []" "srv (length (requests st)) = Unparseable msg"
    "\<not> (1 < length texts \<and> depth < MAX_SPLIT_DEPTH \<and> truncation_like msg)"
  shows "translateBatchInternal srv texts idxs depth st =
          (Inr (fallback_all idxs texts []),
           say Warn_fallback (say (Error_api_call (length texts) depth
              (parse_failure_message depth msg))
             (say (Error_parse_failed (length texts) depth) (send texts idxs depth st))))"
  using assms
  by (subst translateBatchInternal.simps) (auto simp: Let_def catch_block_recover)

lemma bisection_general:
  "(\<forall>n. \<exists>msg. srv n = Unparseable msg) \<Longrightarrow>
    length idxs = length texts \<Longrightarrow> depth \<le> MAX_SPLIT_DEPTH \<Longrightarrow>
    \<exists>m new newc.
      fst (translateBatchInternal srv texts idxs depth st) = Inr m \<and>
      fst ` set m = set idxs \<and>
      requests (snd (translateBatchInternal srv texts idxs depth st)) = requests st @ new \<and>
      (\<forall>r \<in> set new. snd (snd r) \<le> MAX_SPLIT_DEPTH) \<and>
      console (snd (translateBatchInternal srv texts idxs depth st)) = console st @ newc \<and>
      sum_list (given_up_sizes newc) = length texts \<and>
      concat (map fst (resolved_batches srv (length (requests st)) new)) = texts \<and>
      concat (map (fst \<circ> snd) (resolved_batches srv (length (requests st)) new)) = idxs"
proof (induction srv texts idxs depth st rule: translateBatchInternal.induct)
  case (1 srv texts idxs depth st)
  note mal = "1.prems"(1) and len = "1.prems"(2) and dep = "1.prems"(3)
  show ?case
  proof (cases "texts = []")
    case True
    with len show ?thesis by (simp add: translateBatchInternal.simps)
  next
    case ne: False
    from mal obtain msg where msg: "srv (length (requests st)) = Unparseable msg" by blast
    define st1 where "st1 = send texts idxs depth st"
    show ?thesis
    proof (cases "1 < length texts \<and> depth < MAX_SPLIT_DEPTH \<and> truncation_like msg")
      case False
      have leaf: "resolved_batches srv (length (requests st)) [(texts, idxs, depth)] = [(texts, idxs, depth)]"
        using False msg by (auto simp: resolved_batches_Cons is_split_def)
      from translateBatchInternal_give_up[where srv=srv and st=st, OF ne msg False]
      have "fst (translateBatchInternal srv texts idxs depth st) = Inr (fallback_all idxs texts []) \<and>
          fst ` set (fallback_all idxs texts []) = set idxs \<and>
          requests (snd (translateBatchInternal srv texts idxs depth st)) = requests st @ [(texts, idxs, depth)] \<and>
          (\<forall>r \<in> set [(texts, idxs, depth)]. snd (snd r) \<le> MAX_SPLIT_DEPTH) \<and>
          console (snd (translateBatchInternal srv texts idxs depth st)) = console st @
             [Error_parse_failed (length texts) depth,
              Error_api_call (length texts) depth (parse_failure_message depth msg), Warn_fallback] \<and>
          sum_list (given_up_sizes [Error_parse_failed (length texts) depth,
              Error_api_call (length texts) depth (parse_failure_message depth msg), Warn_fallback]) = length texts \<and>
          concat (map fst (resolved_batches srv (length (requests st)) [(texts, idxs, depth)])) = texts \<and>
          concat (map (fst \<circ> snd) (resolved_batches srv (length (requests st)) [(texts, idxs, depth)])) = idxs"
        using dep by (simp add: fallback_all_keys leaf)
      then show ?thesis by blast
    next
      case split: True
      define st2 where "st2 = say (Warn_splitting (length texts) (depth + 1)) st1"
      define mid where "mid = (length texts + 1) div 2"
      define r1 where "r1 = translateBatchInternal srv (take mid texts) (take mid idxs) (depth + 1) st2"
      have "\<exists>m new newc. fst r1 = Inr m \<and> fst ` set m = set (take mid idxs) \<and>
          requests (snd r1) = requests st2 @ new \<and>
          (\<forall>r \<in> set new. snd (snd r) \<le> MAX_SPLIT_DEPTH) \<and>
          console (snd r1) = console st2 @ newc \<and>
          sum_list (given_up_sizes newc) = length (take mid texts) \<and>
          concat (map fst (resolved_batches srv (length (requests st2)) new)) = take mid texts \<and>
          concat (map (fst \<circ> snd) (resolved_batches srv (length (requests st2)) new)) = take mid idxs"
      proof -
        have l: "length (take mid idxs) = length (take mid texts)" using len by simp
        have d: "depth + 1 \<le> MAX_SPLIT_DEPTH" using split by simp
        show ?thesis
          unfolding r1_def
          by (rule "1.IH"(1)[of st1 msg st2 mid "take mid texts" "take mid idxs" "drop mid texts" "drop mid idxs",
                OF ne st1_def msg split st2_def mid_def refl refl refl refl mal l d])
      qed
      then obtain m1 new1 newc1 where 1: "fst r1 = Inr m1" "fst ` set m1 = set (take mid idxs)"
          "requests (snd r1) = requests st2 @ new1" "\<forall>r \<in> set new1. snd (snd r) \<le> MAX_SPLIT_DEPTH"
          "console (snd r1) = console st2 @ newc1"
          "sum_list (given_up_sizes newc1) = length (take mid texts)"
          "concat (map fst (resolved_batches srv (length (requests st2)) new1)) = take mid texts"
          "concat (map (fst \<circ> snd) (resolved_batches srv (length (requests st2)) new1)) = take mid idxs"
        by blast
      define st3 where "st3 = snd r1"
      have r1: "r1 = (Inr m1, st3)" using 1(1) by (simp add: st3_def prod_eq_iff)
      define r2 where "r2 = translateBatchInternal srv (drop mid texts) (drop mid idxs) (depth + 1) st3"
      have "\<exists>m new newc. fst r2 = Inr m \<and> fst ` set m = set (drop mid idxs) \<and>
          requests (snd r2) = requests st3 @ new \<and>
          (\<forall>r \<in> set new. snd (snd r) \<le> MAX_SPLIT_DEPTH) \<and>
          console (snd r2) = console st3 @ newc \<and>
          sum_list (given_up_sizes newc) = length (drop mid texts) \<and>
          concat (map fst (resolved_batches srv (length (requests st3)) new)) = drop mid texts \<and>
          concat (map (fst \<circ> snd) (resolved_batches srv (length (requests st3)) new)) = drop mid idxs"
      proof -
        have l: "length (drop mid idxs) = length (drop mid texts)" using len by simp
        have d: "depth + 1 \<le> MAX_SPLIT_DEPTH" using split by simp
        show ?thesis
          unfolding r2_def
          by (rule "1.IH"(2)[of st1 msg st2 mid "take mid texts" "take mid idxs" "drop mid texts" "drop mid idxs"
                "Inr m1" st3 m1,
                OF ne st1_def msg split st2_def mid_def refl refl refl refl r1[unfolded r1_def, symmetric] refl mal l d])
      qed
      then obtain m2 new2 newc2 where 2: "fst r2 = Inr m2" "fst ` set m2 = set (drop mid idxs)"
          "requests (snd r2) = requests st3 @ new2" "\<forall>r \<in> set new2. snd (snd r) \<le> MAX_SPLIT_DEPTH"
          "console (snd r2) = console st3 @ newc2"
          "sum_list (given_up_sizes newc2) = length (drop mid texts)"
          "concat (map fst (resolved_batches srv (length (requests st3)) new2)) = drop mid texts"
          "concat (map (fst \<circ> snd) (resolved_batches srv (length (requests st3)) new2)) = drop mid idxs"
        by blast
      define st4 where "st4 = snd r2"
      have r2: "r2 = (Inr m2, st4)" using 2(1) by (simp add: st4_def prod_eq_iff)
      have res: "translateBatchInternal srv texts idxs depth st = (Inr (Map_of_entries (m1 @ m2)), st4)"
        using split r1[unfolded r1_def mid_def st2_def st1_def] r2[unfolded r2_def mid_def]
        by (intro translateBatchInternal_split[where srv=srv and st=st, OF ne msg]) auto
      have keys: "fst ` set (Map_of_entries (m1 @ m2)) = set idxs"
      proof -
        have "fst ` set (Map_of_entries (m1 @ m2)) = set (take mid idxs) \<union> set (drop mid idxs)"
          using 1(2) 2(2) by (simp add: keys_Map_of_entries image_Un)
        also have "\<dots> = set (take mid idxs @ drop mid idxs)" by (simp only: set_append)
        finally show ?thesis by simp
      qed
      have reqs: "requests st4 = requests st @ ((texts, idxs, depth) # new1 @ new2)"
        using 1(3) 2(3) by (simp add: st4_def st3_def st2_def st1_def)
      have cons: "console st4 = console st @ (Warn_splitting (length texts) (depth + 1) # newc1 @ newc2)"
        using 1(5) 2(5) by (simp add: st4_def st3_def st2_def st1_def)
      have sum: "sum_list (given_up_sizes (Warn_splitting (length texts) (depth + 1) # newc1 @ newc2))
                  = length texts"
        using 1(6) 2(6) by simp
      have bound: "\<forall>r \<in> set ((texts, idxs, depth) # new1 @ new2). snd (snd r) \<le> MAX_SPLIT_DEPTH"
        using 1(4) 2(4) dep by auto
      have root: "is_split (srv (length (requests st))) (texts, idxs, depth)"
        using split msg by (simp add: is_split_def)
      have l2: "length (requests st2) = Suc (length (requests st))"
        by (simp add: st2_def st1_def)
      have l3: "length (requests st3) = Suc (length (requests st)) + length new1"
        using 1(3) l2 by (simp add: st3_def)
      have rb: "resolved_batches srv (length (requests st)) ((texts, idxs, depth) # new1 @ new2)
          = resolved_batches srv (length (requests st2)) new1 @
            resolved_batches srv (length (requests st3)) new2"
        using root by (simp add: resolved_batches_Cons resolved_batches_append l2 l3)
      have ct: "concat (map fst (resolved_batches srv (length (requests st))
                  ((texts, idxs, depth) # new1 @ new2))) = texts"
        using 1(7) 2(7) by (simp add: rb)
      have ci: "concat (map (fst \<circ> snd) (resolved_batches srv (length (requests st))
                  ((texts, idxs, depth) # new1 @ new2))) = idxs"
        using 1(8) 2(8) by (simp add: rb)
      have "fst (translateBatchInternal srv texts idxs depth st) = Inr (Map_of_entries (m1 @ m2)) \<and>
          fst ` set (Map_of_entries (m1 @ m2)) = set idxs \<and>
          requests (snd (translateBatchInternal srv texts idxs depth st)) =
             requests st @ ((texts, idxs, depth) # new1 @ new2) \<and>
          (\<forall>r \<in> set ((texts, idxs, depth) # new1 @ new2). snd (snd r) \<le> MAX_SPLIT_DEPTH) \<and>
          console (snd (translateBatchInternal srv texts idxs depth st)) =
             console st @ (Warn_splitting (length texts) (depth + 1) # newc1 @ newc2) \<and>
          sum_list (given_up_sizes (Warn_splitting (length texts) (depth + 1) # newc1 @ newc2)) = length texts \<and>
          concat (map fst (resolved_batches srv (length (requests st))
                  ((texts, idxs, depth) # new1 @ new2))) = texts \<and>
          concat (map (fst \<circ> snd) (resolved_batches srv (length (requests st))
                  ((texts, idxs, depth) # new1 @ new2))) = idxs"
        using res keys reqs cons sum bound ct ci by simp
      then show ?thesis by blast
    qed
  qed
qed

lemma distinct_foldl_update:
  "distinct (map fst m) \<Longrightarrow> distinct (map fst (foldl (\<lambda>m (k, v). AList.update k v m) m es))"
  by (induction es arbitrary: m) (auto simp: distinct_update split: prod.splits)

lemma distinct_Map_of_entries: "distinct (map fst (Map_of_entries es))"
  by (simp add: Map_of_entries_def distinct_foldl_update)

lemma distinct_fallback_all:
  "distinct (map fst m) \<Longrightarrow> distinct (map fst (fallback_all idxs texts m))"
proof -
  have "fallback_all idxs texts m =
      foldl (\<lambda>m (k, v). AList.update k v m) m
        (map (\<lambda>(i, promptIndex). (promptIndex, text_at texts i)) (enumerate 0 idxs))"
    by (simp add: fallback_all_def foldl_map case_prod_unfold)
  then show "distinct (map fst m) \<Longrightarrow> ?thesis" by (simp add: distinct_foldl_update)
qed

lemma distinct_fill_results:
  "distinct (map fst m) \<Longrightarrow> fill_results j texts ps m st = (r, m', st') \<Longrightarrow> distinct (map fst m')"
  by (induction j texts ps m st rule: fill_results.induct)
     (auto simp: Let_def distinct_update split: sum.splits if_splits option.splits jsval.splits)

lemma catch_block_distinct:
  "distinct (map fst m) \<Longrightarrow> catch_block e texts idxs depth m st = (Inr m', st') \<Longrightarrow> distinct (map fst m')"
  by (auto simp: catch_block_def Let_def distinct_fallback_all split: if_splits)

lemma translateBatchInternal_distinct:
  assumes "translateBatchInternal srv texts idxs depth st = (Inr m, st')"
  shows "distinct (map fst m)"
proof -
  have cb: "distinct (map fst m)" if "catch_block e texts idxs depth [] s = (Inr m, st')" for e s
    using catch_block_distinct[OF _ that] by simp
  have fr: "distinct (map fst m')" if "fill_results j texts ps [] s = (r, m', s')" for j ps s r m' s'
    using distinct_fill_results[OF _ that] by simp
  from assms show ?thesis
    by (subst (asm) translateBatchInternal.simps)
       (auto simp: Let_def distinct_Map_of_entries dest: cb fr catch_block_distinct
             split: if_splits response.splits prod.splits sum.splits option.splits)
qed

lemma map_of_rev_distinct: "distinct (map fst m) \<Longrightarrow> map_of (rev m) = map_of m"
proof -
  assume d: "distinct (map fst m)"
  then have "distinct (map fst (rev m))" by (metis distinct_rev rev_map)
  then show ?thesis using d by (simp add: map_of_inject_set)
qed

lemmas run_defs = translateBatchInternal.simps catch_block_def fallback_all_def text_at_def
  Map_of_entries_def parse_failure_message_def truncation_like_def toLowerCase_def startsWith_def
  MAX_SPLIT_DEPTH_def init_state_def say_def send_def Error_def TypeError_def APIError_def
  js_def Let_def decimal.simps

lemma hasOwnProperty_plain:
  "plain_response j \<Longrightarrow> hasOwnProperty j k = Inr (own_property j k \<noteq> None)"
  by (cases j) (auto simp: plain_response_def)

lemma fill_results_plain:
  assumes "plain_response j" "\<forall>(i, p) \<in> set ps. i < length texts"
  shows "\<exists>st'. fill_results j texts ps m st =
            (None, foldl (\<lambda>m (i, p). AList.update p (resolved_text j p (texts ! i)) m) m ps, st') \<and>
          requests st' = requests st \<and>
          set (console st') \<subseteq> set (console st) \<union> range Warn_missing"
  using assms(2)
proof (induction ps arbitrary: m st)
  case Nil then show ?case by simp
next
  case (Cons a ps)
  obtain i p where a: "a = (i, p)" by (cases a)
  from Cons.prems a have i: "i < length texts" and rest: "\<forall>(i, p) \<in> set ps. i < length texts" by auto
  show ?case
  proof (cases "\<exists>s. own_property j (decimal p) = Some (JStr s)")
    case True
    then obtain s where s: "own_property j (decimal p) = Some (JStr s)" by blast
    from Cons.IH[OF rest, of "AList.update p (JStr s) m" st]
    show ?thesis
      by (simp add: a hasOwnProperty_plain[OF assms(1)] s resolved_text_def Let_def)
  next
    case False
    then have r: "resolved_text j p (texts ! i) = JStr (texts ! i)"
      by (auto simp: resolved_text_def split: option.splits jsval.splits)
    from Cons.IH[OF rest, of "AList.update p (JStr (texts ! i)) m" "say (Warn_missing p) st"]
    obtain st' where st': "fill_results j texts ps (AList.update p (JStr (texts ! i)) m) (say (Warn_missing p) st) =
            (None, foldl (\<lambda>m (i, p). AList.update p (resolved_text j p (texts ! i)) m)
                     (AList.update p (JStr (texts ! i)) m) ps, st')"
        "requests st' = requests st"
        "set (console st') \<subseteq> set (console st) \<union> range Warn_missing"
      by (auto simp: say_def)
    have "fill_results j texts (a # ps) m st =
        fill_results j texts ps (AList.update p (JStr (texts ! i)) m) (say (Warn_missing p) st)"
      using False i
      by (auto simp: a hasOwnProperty_plain[OF assms(1)] Let_def split: option.splits jsval.splits)
    with st' show ?thesis by (simp add: a r)
  qed
qed

lemma parsed_response_results:
  assumes "srv (length (requests st)) = Parsed j" and "plain_response j"
    and "texts \<noteq> []" and "length idxs = length texts" and "distinct idxs"
  shows "\<exists>st'. translateBatchInternal srv texts idxs depth st =
            (Inr (zip idxs (map (\<lambda>(p, t). resolved_text j p t) (zip idxs texts))), st') \<and>
          requests st' = requests st @ [(texts, idxs, depth)] \<and>
          set (console st') \<subseteq> set (console st) \<union> range Warn_missing"
proof -
  have b: "\<forall>(i, p) \<in> set (enumerate 0 idxs). i < length texts"
    using assms(4) by (auto simp: in_set_enumerate_eq)
  from fill_results_plain[OF assms(2) b, of "[]" "send texts idxs depth st"]
  obtain st' where st': "fill_results j texts (enumerate 0 idxs) [] (send texts idxs depth st) =
            (None, foldl (\<lambda>m (i, p). AList.update p (resolved_text j p (texts ! i)) m) [] (enumerate 0 idxs), st')"
      "requests st' = requests (send texts idxs depth st)"
      "set (console st') \<subseteq> set (console (send texts idxs depth st)) \<union> range Warn_missing"
    by blast
  have entries: "map (\<lambda>(i, p). (p, resolved_text j p (texts ! i))) (enumerate 0 idxs)
      = zip idxs (map (\<lambda>(p, t). resolved_text j p t) (zip idxs texts))"
    using assms(4) by (intro nth_equalityI) (auto simp: nth_enumerate_eq)
  have "foldl (\<lambda>m (i, p). AList.update p (resolved_text j p (texts ! i)) m) [] (enumerate 0 idxs)
      = foldl (\<lambda>m (k, v). AList.update k v m) []
          (map (\<lambda>(i, p). (p, resolved_text j p (texts ! i))) (enumerate 0 idxs))"
    by (simp add: foldl_map case_prod_unfold)
  also have "\<dots> = [] @ zip idxs (map (\<lambda>(p, t). resolved_text j p t) (zip idxs texts))"
    unfolding entries using assms(4,5) by (intro foldl_update_fresh) simp_all
  finally have m: "foldl (\<lambda>m (i, p). AList.update p (resolved_text j p (texts ! i)) m) [] (enumerate 0 idxs)
      = zip idxs (map (\<lambda>(p, t). resolved_text j p t) (zip idxs texts))" by simp
  have "translateBatchInternal srv texts idxs depth st =
      (Inr (zip idxs (map (\<lambda>(p, t). resolved_text j p t) (zip idxs texts))), st')"
    using assms(1,3) st'(1)
    by (subst translateBatchInternal.simps) (simp add: Let_def m)
  with st'(2,3) show ?thesis by simp
qed

text \<open>
  Claim C2, as amended. When the response does not parse: if the batch has more than one
  unit, the depth is below \<open>MAX_SPLIT_DEPTH\<close> and the message of the parse error looks like
  a truncation (it contains "Unterminated string", "Unexpected end of JSON input" or, in
  any case, "unexpected token"), the batch is cut at \<open>\<lceil>n/2\<rceil>\<close>, each half is translated by a
  call of its own at depth + 1, and when both calls return their maps the result is the
  merge of the two; otherwise the call returns (it does not raise) the map that gives
  every prompt index its original text, after one request, and prints the fallback warning.
\<close>

theorem malformed_response_split_or_fallback:
  assumes "srv (length (requests st)) = Unparseable msg" and "texts \<noteq> []"
    and "length idxs = length texts" and "distinct idxs"
  shows "(1 < length texts \<and> depth < MAX_SPLIT_DEPTH \<and> truncation_like msg \<longrightarrow>
           (\<forall>m1 st3 m2 st4.
              translateBatchInternal srv (take ((length texts + 1) div 2) texts)
                (take ((length texts + 1) div 2) idxs) (depth + 1)
                (say (Warn_splitting (length texts) (depth + 1)) (send texts idxs depth st))
                = (Inr m1, st3) \<and>
              translateBatchInternal srv (drop ((length texts + 1) div 2) texts)
                (drop ((length texts + 1) div 2) idxs) (depth + 1) st3 = (Inr m2, st4) \<longrightarrow>
              (\<exists>m. translateBatchInternal srv texts idxs depth st = (Inr m, st4) \<and>
                   map_of m = map_of m1 ++ map_of m2))) \<and>
         (\<not> (1 < length texts \<and> depth < MAX_SPLIT_DEPTH \<and> truncation_like msg) \<longrightarrow>
           (\<exists>st'. translateBatchInternal srv texts idxs depth st
                    = (Inr (zip idxs (map JStr texts)), st') \<and>
                  requests st' = requests st @ [(texts, idxs, depth)] \<and>
                  Warn_fallback \<in> set (console st')))"
proof (intro conjI impI allI)
  fix m1 st3 m2 st4
  assume split: "1 < length texts \<and> depth < MAX_SPLIT_DEPTH \<and> truncation_like msg"
  assume sub: "translateBatchInternal srv (take ((length texts + 1) div 2) texts)
                (take ((length texts + 1) div 2) idxs) (depth + 1)
                (say (Warn_splitting (length texts) (depth + 1)) (send texts idxs depth st))
                = (Inr m1, st3) \<and>
              translateBatchInternal srv (drop ((length texts + 1) div 2) texts)
                (drop ((length texts + 1) div 2) idxs) (depth + 1) st3 = (Inr m2, st4)"
  have res: "translateBatchInternal srv texts idxs depth st = (Inr (Map_of_entries (m1 @ m2)), st4)"
    using split sub
    by (intro translateBatchInternal_split[where srv=srv and st=st, OF assms(2) assms(1)]) auto
  have "distinct (map fst m1)" "distinct (map fst m2)"
    using sub translateBatchInternal_distinct by blast+
  then have "map_of (Map_of_entries (m1 @ m2)) = map_of m1 ++ map_of m2"
    by (simp add: map_of_Map_of_entries map_of_rev_distinct)
  with res show "\<exists>m. translateBatchInternal srv texts idxs depth st = (Inr m, st4) \<and>
                   map_of m = map_of m1 ++ map_of m2" by blast
next
  assume nosplit: "\<not> (1 < length texts \<and> depth < MAX_SPLIT_DEPTH \<and> truncation_like msg)"
  from translateBatchInternal_give_up[where srv=srv and st=st, OF assms(2) assms(1) nosplit]
  show "\<exists>st'. translateBatchInternal srv texts idxs depth st
                    = (Inr (zip idxs (map JStr texts)), st') \<and>
                  requests st' = requests st @ [(texts, idxs, depth)] \<and>
                  Warn_fallback \<in> set (console st')"
    by (simp add: fallback_all_distinct[OF assms(3) assms(4)])
qed

theorem malformed_response_split_or_fallback_witness:
  "(\<exists>m st4. translateBatchInternal
       (\<lambda>n. if n = 0 then Unparseable (js ''Unterminated string in JSON at position 9'')
            else Parsed (JObj [(js ''0'', JStr (js ''X''))]))
       [js ''a'', js ''b''] [0, 1] 0 init_state = (Inr m, st4) \<and>
      map_of m = map_of [(0, JStr (js ''X''))] ++ map_of [(1, JStr (js ''b''))]) \<and>
   (\<exists>st'. translateBatchInternal
       (\<lambda>n. Unparseable (js ''Unterminated string in JSON at position 9''))
       [js ''a'', js ''b''] [0, 1] MAX_SPLIT_DEPTH init_state
         = (Inr (zip [0, 1] (map JStr [js ''a'', js ''b''])), st') \<and>
      requests st' = requests init_state @ [([js ''a'', js ''b''], [0, 1], MAX_SPLIT_DEPTH)] \<and>
      Warn_fallback \<in> set (console st'))"
proof -
  let ?msg = "js ''Unterminated string in JSON at position 9''"
  let ?srv = "\<lambda>n::nat. if n = 0 then Unparseable ?msg else Parsed (JObj [(js ''0'', JStr (js ''X''))])"
  let ?texts = "[js ''a'', js ''b'']"
  let ?idxs = "[0, 1::nat]"
  have h1: "?srv (length (requests init_state)) = Unparseable ?msg" by (simp add: init_state_def)
  have h2: "?texts \<noteq> []" by simp
  have h3: "length ?idxs = length ?texts" by simp
  have h4: "distinct ?idxs" by simp
  have c: "1 < length ?texts \<and> 0 < MAX_SPLIT_DEPTH \<and> truncation_like ?msg"
    by (simp add: run_defs)
  have s1: "translateBatchInternal ?srv (take ((length ?texts + 1) div 2) ?texts)
                (take ((length ?texts + 1) div 2) ?idxs) (0 + 1)
                (say (Warn_splitting (length ?texts) (0 + 1)) (send ?texts ?idxs 0 init_state))
              = (Inr [(0, JStr (js ''X''))],
                 \<lparr> requests = [(?texts, ?idxs, 0), ([js ''a''], [0], 1)],
                   console = [Warn_splitting 2 1] \<rparr>)"
    by (simp add: run_defs)
  have s2: "translateBatchInternal ?srv (drop ((length ?texts + 1) div 2) ?texts)
                (drop ((length ?texts + 1) div 2) ?idxs) (0 + 1)
                \<lparr> requests = [(?texts, ?idxs, 0), ([js ''a''], [0], 1)],
                   console = [Warn_splitting 2 1] \<rparr>
              = (Inr [(1, JStr (js ''b''))],
                 \<lparr> requests = [(?texts, ?idxs, 0), ([js ''a''], [0], 1), ([js ''b''], [1], 1)],
                   console = [Warn_splitting 2 1, Warn_missing 1] \<rparr>)"
    by (simp add: run_defs)
  have first: "\<exists>m st4. translateBatchInternal ?srv ?texts ?idxs 0 init_state = (Inr m, st4) \<and>
      map_of m = map_of [(0, JStr (js ''X''))] ++ map_of [(1, JStr (js ''b''))]"
    using malformed_response_split_or_fallback [where srv="?srv" and st=init_state and depth=0, OF h1 h2 h3 h4]
      c s1 s2 by blast
  let ?srv2 = "\<lambda>n::nat. Unparseable ?msg"
  have g1: "?srv2 (length (requests init_state)) = Unparseable ?msg" by simp
  have n: "\<not> (1 < length ?texts \<and> MAX_SPLIT_DEPTH < MAX_SPLIT_DEPTH \<and> truncation_like ?msg)"
    by simp
  have second: "\<exists>st'. translateBatchInternal ?srv2 ?texts ?idxs MAX_SPLIT_DEPTH init_state
         = (Inr (zip ?idxs (map JStr ?texts)), st') \<and>
      requests st' = requests init_state @ [(?texts, ?idxs, MAX_SPLIT_DEPTH)] \<and>
      Warn_fallback \<in> set (console st')"
    using malformed_response_split_or_fallback
        [where srv="?srv2" and st=init_state and depth=MAX_SPLIT_DEPTH, OF g1 h2 h3 h4] n by blast
  from first second show ?thesis by blast
qed

text \<open>
  Claim C2 as stated fails: a batch of two at depth 0 whose response does not parse with a
  message that is not truncation-like ("Bad control character in string literal ...") is
  not split; one request is made and both units fall back.
\<close>

theorem non_truncation_parse_error_counterexample:
  "1 < length [js ''a'', js ''b''] \<and> (0::nat) < MAX_SPLIT_DEPTH \<and>
   fst (translateBatchInternal
     (\<lambda>n. Unparseable (js ''Bad control character in string literal in JSON at position 9''))
     [js ''a'', js ''b''] [0, 1] 0 init_state) = Inr [(0, JStr (js ''a'')), (1, JStr (js ''b''))] \<and>
   requests (snd (translateBatchInternal
     (\<lambda>n. Unparseable (js ''Bad control character in string literal in JSON at position 9''))
     [js ''a'', js ''b''] [0, 1] 0 init_state)) = [([js ''a'', js ''b''], [0, 1], 0)]"
  by (simp add: run_defs)

text \<open>
  Claim C3 at the failing input. The first response is truncated, so the batch of two is
  split; the request for the first half is rejected with status 401. The recursive call
  throws "OpenAI Authorization Failed", the \<^verbatim>\<open>catch\<close> block of the parent call catches it as
  an ordinary error, and the top-level call returns the original texts instead of raising.
\<close>

theorem nested_authorization_failure_swallowed:
  "fst (translateBatchInternal
     (\<lambda>n. if n = 0 then Unparseable (js ''Unterminated string in JSON at position 9'')
          else Rejected (APIError (Some 401) (js ''401 Incorrect API key provided'')))
     [js ''a'', js ''b''] [0, 1] 0 init_state) = Inr [(0, JStr (js ''a'')), (1, JStr (js ''b''))] \<and>
   requests (snd (translateBatchInternal
     (\<lambda>n. if n = 0 then Unparseable (js ''Unterminated string in JSON at position 9'')
          else Rejected (APIError (Some 401) (js ''401 Incorrect API key provided'')))
     [js ''a'', js ''b''] [0, 1] 0 init_state)) = [([js ''a'', js ''b''], [0, 1], 0), ([js ''a''], [0], 1)]"
  by (simp add: run_defs)

text \<open>
  Claim C4. For every batch with as many prompt indices as texts and every service whose
  responses never parse, the call at depth 0 returns a map whose keys are the prompt
  indices of the batch; no request is made at a depth above \<open>MAX_SPLIT_DEPTH\<close>; the batches
  that are not split any further, in the order of their requests, concatenate to the
  original batch (texts and prompt indices), so their sizes add up to its size, and so do
  the batch sizes of the parse failures printed on the console.
\<close>

theorem bisection_terminates_and_conserves:
  assumes "\<forall>n. \<exists>msg. srv n = Unparseable msg" and "length idxs = length texts"
  shows "\<exists>m st'. translateBatchInternal srv texts idxs 0 init_state = (Inr m, st') \<and>
           fst ` set m = set idxs \<and>
           (\<forall>b \<in> set (requests st'). snd (snd b) \<le> MAX_SPLIT_DEPTH) \<and>
           concat (map fst (resolved_batches srv 0 (requests st'))) = texts \<and>
           concat (map (fst \<circ> snd) (resolved_batches srv 0 (requests st'))) = idxs \<and>
           sum_list (map (length \<circ> fst) (resolved_batches srv 0 (requests st'))) = length texts \<and>
           sum_list (given_up_sizes (console st')) = length texts"
proof -
  from bisection_general[where srv=srv and depth=0 and st=init_state, OF assms]
  obtain m new newc where g:
      "fst (translateBatchInternal srv texts idxs 0 init_state) = Inr m"
      "fst ` set m = set idxs"
      "requests (snd (translateBatchInternal srv texts idxs 0 init_state)) = requests init_state @ new"
      "\<forall>r \<in> set new. snd (snd r) \<le> MAX_SPLIT_DEPTH"
      "console (snd (translateBatchInternal srv texts idxs 0 init_state)) = console init_state @ newc"
      "sum_list (given_up_sizes newc) = length texts"
      "concat (map fst (resolved_batches srv (length (requests init_state)) new)) = texts"
      "concat (map (fst \<circ> snd) (resolved_batches srv (length (requests init_state)) new)) = idxs"
    by auto
  define st' where "st' = snd (translateBatchInternal srv texts idxs 0 init_state)"
  have r: "translateBatchInternal srv texts idxs 0 init_state = (Inr m, st')"
    using g(1) by (simp add: st'_def prod_eq_iff)
  have rq: "requests st' = new" using g(3) by (simp add: st'_def init_state_def)
  have cs: "console st' = newc" using g(5) by (simp add: st'_def init_state_def)
  have ct: "concat (map fst (resolved_batches srv 0 (requests st'))) = texts"
    using g(7) by (simp add: rq init_state_def)
  have "length (concat (map fst (resolved_batches srv 0 (requests st')))) = length texts"
    by (simp only: ct)
  then have sm: "sum_list (map (length \<circ> fst) (resolved_batches srv 0 (requests st'))) = length texts"
    by (simp add: length_concat comp_def)
  show ?thesis
    using r g(2) g(4) g(6) g(8) ct sm
    by (intro exI[of _ m] exI[of _ st']) (simp add: rq cs init_state_def)
qed

theorem bisection_terminates_and_conserves_witness:
  "\<exists>m st'. translateBatchInternal (\<lambda>n. Unparseable (js ''Unexpected end of JSON input''))
              [js ''a'', js ''b'', js ''c'', js ''d'', js ''e''] [0, 1, 2, 3, 4] 0 init_state = (Inr m, st') \<and>
           fst ` set m = set [0, 1, 2, 3, 4] \<and>
           (\<forall>b \<in> set (requests st'). snd (snd b) \<le> MAX_SPLIT_DEPTH) \<and>
           concat (map fst (resolved_batches (\<lambda>n. Unparseable (js ''Unexpected end of JSON input'')) 0
              (requests st'))) = [js ''a'', js ''b'', js ''c'', js ''d'', js ''e''] \<and>
           concat (map (fst \<circ> snd) (resolved_batches (\<lambda>n. Unparseable (js ''Unexpected end of JSON input'')) 0
              (requests st'))) = [0, 1, 2, 3, 4] \<and>
           sum_list (map (length \<circ> fst) (resolved_batches (\<lambda>n. Unparseable (js ''Unexpected end of JSON input'')) 0
              (requests st'))) = length [js ''a'', js ''b'', js ''c'', js ''d'', js ''e''] \<and>
           sum_list (given_up_sizes (console st')) = length [js ''a'', js ''b'', js ''c'', js ''d'', js ''e'']"
proof -
  have h1: "\<forall>n. \<exists>msg. (\<lambda>n::nat. Unparseable (js ''Unexpected end of JSON input'')) n = Unparseable msg"
    by simp
  have h2: "length [0, 1, 2, 3, 4::nat] = length [js ''a'', js ''b'', js ''c'', js ''d'', js ''e'']"
    by simp
  show ?thesis
    by (rule bisection_terminates_and_conserves
          [where srv="\<lambda>n::nat. Unparseable (js ''Unexpected end of JSON input'')", OF h1 h2])
qed

text \<open>
  Claim C5 at the failing input. The response parses and binds key \<open>0\<close> to a string, but it
  also has a key \<open>hasOwnProperty\<close>: the call \<^verbatim>\<open>translatedJson.hasOwnProperty(key)\<close> throws a
  \<^verbatim>\<open>TypeError\<close>, and the \<^verbatim>\<open>catch\<close> block maps index 0 to its original text.
\<close>

theorem shadowed_hasOwnProperty_falls_back:
  "fst (translateBatchInternal
     (\<lambda>n. Parsed (JObj [(js ''0'', JStr (js ''X'')), (js ''hasOwnProperty'', JStr (js ''y''))]))
     [js ''a''] [0] 0 init_state) = Inr [(0, JStr (js ''a''))]"
  by (simp add: run_defs)


section \<open>Properties of \<^verbatim>\<open>translateTextsBatch\<close>, \<^verbatim>\<open>execJSON\<close> and \<^verbatim>\<open>execLOCAL\<close>\<close>

lemma priv_parse_item_no_value: "map_of (priv_parse_item l i) ''value'' = None"
  by (simp add: priv_parse_item_def Let_def)

lemma priv_parseLocal_no_value:
  "item \<in> set (priv_parseLocal s) \<Longrightarrow> get_prop item ''value'' = JUndefined"
  by (auto simp: priv_parseLocal_def get_prop_def priv_parse_item_no_value)

lemma all_strings_Nil [simp]: "all_strings []"
  by (simp add: all_strings_def)

lemma all_strings_update:
  "all_strings m \<Longrightarrow> all_strings (AList.update k (JStr s) m)"
  by (induction m) (auto simp: all_strings_def)

lemma all_strings_foldl_update:
  "all_strings m \<Longrightarrow> \<forall>v \<in> snd ` set es. \<exists>s. v = JStr s \<Longrightarrow>
     all_strings (foldl (\<lambda>m (k, v). AList.update k v m) m es)"
proof (induction es arbitrary: m)
  case Nil then show ?case by simp
next
  case (Cons e es)
  obtain k v where e: "e = (k, v)" by (cases e)
  from Cons.prems(2) e obtain s where s: "v = JStr s" by auto
  have "all_strings (AList.update k v m)" using Cons.prems(1) s by (simp add: all_strings_update)
  moreover have "\<forall>v \<in> snd ` set es. \<exists>s. v = JStr s" using Cons.prems(2) by auto
  ultimately show ?case using Cons.IH by (simp add: e)
qed

lemma all_strings_Map_of_entries:
  "all_strings m1 \<Longrightarrow> all_strings m2 \<Longrightarrow> all_strings (Map_of_entries (m1 @ m2))"
  unfolding Map_of_entries_def
  by (rule all_strings_foldl_update) (auto simp: all_strings_def)

lemma all_strings_fallback_all:
  assumes "all_strings m" "length idxs = length texts"
  shows "all_strings (fallback_all idxs texts m)"
proof -
  have "fallback_all idxs texts m =
      foldl (\<lambda>m (k, v). AList.update k v m) m
        (map (\<lambda>(i, promptIndex). (promptIndex, text_at texts i)) (enumerate 0 idxs))"
    by (simp add: fallback_all_def foldl_map case_prod_unfold)
  moreover have "\<forall>v \<in> snd ` set (map (\<lambda>(i, promptIndex). (promptIndex, text_at texts i)) (enumerate 0 idxs)).
      \<exists>s. v = JStr s"
    using assms(2) by (auto simp: in_set_enumerate_eq text_at_def)
  ultimately show ?thesis using assms(1) by (simp add: all_strings_foldl_update)
qed

lemma all_strings_fill_results:
  "all_strings m \<Longrightarrow> fill_results j texts ps m st = (r, m', st') \<Longrightarrow> all_strings m'"
  by (induction j texts ps m st rule: fill_results.induct)
     (auto simp: Let_def all_strings_update split: sum.splits if_splits option.splits jsval.splits)

lemma all_strings_catch_block:
  "all_strings m \<Longrightarrow> length idxs = length texts \<Longrightarrow>
     catch_block e texts idxs depth m st = (Inr m', st') \<Longrightarrow> all_strings m'"
  by (auto simp: catch_block_def Let_def all_strings_fallback_all split: if_splits)

lemma translateBatchInternal_strings:
  "length idxs = length texts \<Longrightarrow>
     translateBatchInternal srv texts idxs depth st = (Inr m, st') \<Longrightarrow> all_strings m"
proof (induction srv texts idxs depth st arbitrary: m st' rule: translateBatchInternal.induct)
  case (1 srv texts idxs depth st)
  note len = "1.prems"(1) and res = "1.prems"(2)
  have cb: "all_strings m'" if "catch_block e texts idxs depth [] s = (Inr m', s')" for e s m' s'
    using all_strings_catch_block[OF _ len that] by simp
  show ?case
  proof (cases "texts = []")
    case True
    with res show ?thesis by (simp add: translateBatchInternal.simps)
  next
    case ne: False
    show ?thesis
    proof (cases "srv (length (requests st))")
      case (Rejected x)
      with res ne show ?thesis
        by (subst (asm) translateBatchInternal.simps) (auto simp: Let_def dest: cb)
    next
      case NoContent
      with res ne show ?thesis
        by (subst (asm) translateBatchInternal.simps) (auto simp: Let_def dest: cb)
    next
      case (Parsed j)
      have fr: "all_strings m'" if "fill_results j texts ps [] s = (r, m', s')" for ps s r m' s'
        using all_strings_fill_results[OF _ that] by simp
      from res ne Parsed show ?thesis
        by (subst (asm) translateBatchInternal.simps)
           (auto simp: Let_def split: prod.splits option.splits
                 dest!: fr dest: all_strings_catch_block[OF _ len])
    next
      case (Unparseable msg)
      show ?thesis
      proof (cases "1 < length texts \<and> depth < MAX_SPLIT_DEPTH \<and> truncation_like msg")
        case False
        from translateBatchInternal_give_up[where srv=srv and st=st, OF ne Unparseable False] res
        have "m = fallback_all idxs texts []" by simp
        then show ?thesis using len by (simp add: all_strings_fallback_all)
      next
        case split: True
        define st1 where "st1 = send texts idxs depth st"
        define st2 where "st2 = say (Warn_splitting (length texts) (depth + 1)) st1"
        define mid where "mid = (length texts + 1) div 2"
        define r1 where "r1 = translateBatchInternal srv (take mid texts) (take mid idxs) (depth + 1) st2"
        define r2 where "r2 = translateBatchInternal srv (drop mid texts) (drop mid idxs) (depth + 1) (snd r1)"
        have unfold: "translateBatchInternal srv texts idxs depth st =
            (case r1 of
               (Inl e, st3) \<Rightarrow> catch_block e texts idxs depth [] st3
             | (Inr m1, st3) \<Rightarrow>
                 (case r2 of
                    (Inl e, st4) \<Rightarrow> catch_block e texts idxs depth [] st4
                  | (Inr m2, st4) \<Rightarrow> (Inr (Map_of_entries (m1 @ m2)), st4)))"
          using ne Unparseable split
          by (subst translateBatchInternal.simps)
             (auto simp: Let_def r1_def r2_def st1_def st2_def mid_def split: prod.splits sum.splits)
        show ?thesis
        proof (cases r1)
          case (Pair a st3)
          show ?thesis
          proof (cases a)
            case (Inl e)
            with res unfold Pair show ?thesis by (auto dest: cb)
          next
            case (Inr m1)
            have l1: "length (take mid idxs) = length (take mid texts)" using len by simp
            have s1: "all_strings m1"
              by (rule "1.IH"(1)[of st1 msg st2 mid "take mid texts" "take mid idxs" "drop mid texts"
                    "drop mid idxs" m1 st3,
                    OF ne st1_def Unparseable split st2_def mid_def refl refl refl refl l1])
                 (use Pair Inr r1_def in simp)
            show ?thesis
            proof (cases r2)
              case p2: (Pair a2 st4)
              show ?thesis
              proof (cases a2)
                case il: (Inl e)
                with res unfold Pair Inr p2 show ?thesis by (auto dest: cb)
              next
                case ir: (Inr m2)
                have l2: "length (drop mid idxs) = length (drop mid texts)" using len by simp
                have e1: "(Inr m1, st3) = translateBatchInternal srv (take mid texts) (take mid idxs) (depth + 1) st2"
                  using Pair Inr r1_def by simp
                have s2: "all_strings m2"
                  by (rule "1.IH"(2)[of st1 msg st2 mid "take mid texts" "take mid idxs" "drop mid texts"
                        "drop mid idxs" "Inr m1" st3 m1 m2 st4,
                        OF ne st1_def Unparseable split st2_def mid_def refl refl refl refl e1 refl l2])
                     (use p2 ir r2_def Pair in simp)
                from res unfold Pair Inr p2 ir have "m = Map_of_entries (m1 @ m2)" by simp
                with s1 s2 show ?thesis by (simp add: all_strings_Map_of_entries)
              qed
            qed
          qed
        qed
      qed
    qed
  qed
qed

lemma length_array_set_in: "i < length xs \<Longrightarrow> length (array_set xs i v) = length xs"
  by (simp add: array_set_def)

lemma place_results_frame:
  assumes "\<forall>i \<in> set oi. i < length res"
  shows "length (place_results oi m res) = length res \<and>
         (\<forall>i < length res. i \<notin> set oi \<longrightarrow> place_results oi m res ! i = res ! i) \<and>
         (all_strings m \<longrightarrow> (\<forall>i < length res. place_results oi m res ! i = res ! i \<or>
                                   (\<exists>s. place_results oi m res ! i = JStr s)))"
  using assms unfolding place_results_def
proof (induction m arbitrary: res)
  case Nil then show ?case by simp
next
  case (Cons e m)
  obtain p t where e: "e = (p, t)" by (cases e)
  define res' where "res' = (if p < length oi then array_set res (oi ! p) t else res)"
  have len: "length res' = length res"
    using Cons.prems by (auto simp: res'_def array_set_def)
  have same: "\<forall>i < length res. i \<notin> set oi \<longrightarrow> res' ! i = res ! i"
    using Cons.prems by (auto simp: res'_def array_set_def nth_list_update)
  have str: "\<forall>i < length res. res' ! i = res ! i \<or> res' ! i = t"
    using Cons.prems by (auto simp: res'_def array_set_def nth_list_update)
  have b: "\<forall>i \<in> set oi. i < length res'" using Cons.prems len by simp
  note IH = Cons.IH[OF b]
  have step: "foldl (\<lambda>res (promptIndexFromApi, translatedText).
              if promptIndexFromApi < length oi
              then array_set res (oi ! promptIndexFromApi) translatedText else res) res (e # m)
        = foldl (\<lambda>res (promptIndexFromApi, translatedText).
              if promptIndexFromApi < length oi
              then array_set res (oi ! promptIndexFromApi) translatedText else res) res' m"
    by (simp add: e res'_def)
  have ast: "all_strings (e # m) \<Longrightarrow> all_strings m \<and> (\<exists>s. t = JStr s)"
    by (auto simp: all_strings_def e)
  show ?case
    unfolding step using IH len same str ast
    by (metis (no_types, lifting))
qed

lemma kept_indices:
  "i \<in> set (map fst (filter (\<lambda>(index, t). is_translatable t) (enumerate 0 texts)))
     \<longleftrightarrow> i < length texts \<and> is_translatable (texts ! i)"
  by (auto simp: in_set_enumerate_eq image_iff)

lemma translateTextsBatch_frame:
  assumes "translateTextsBatch srv texts st = (Inr out, st')"
  shows "length out = length texts \<and>
         (\<forall>i < length texts. \<not> is_translatable (texts ! i) \<longrightarrow> out ! i = texts ! i) \<and>
         (\<forall>i < length texts. out ! i = texts ! i \<or> (\<exists>s. out ! i = JStr s))"
proof (cases "texts = []")
  case True
  with assms show ?thesis by (simp add: translateTextsBatch_def)
next
  case ne: False
  define kept where "kept = filter (\<lambda>(index, t). is_translatable t) (enumerate 0 texts)"
  show ?thesis
  proof (cases "map (the_string \<circ> snd) kept = []")
    case True
    with assms ne show ?thesis by (simp add: translateTextsBatch_def Let_def kept_def)
  next
    case False
    from assms ne False obtain m where
      m: "translateBatchInternal srv (map (the_string \<circ> snd) kept)
            [0..<length (map (the_string \<circ> snd) kept)] 0 st = (Inr m, st')"
      and out: "out = place_results (map fst kept) m texts"
      by (auto simp: translateTextsBatch_def Let_def kept_def split: prod.splits sum.splits)
    have s: "all_strings m"
      by (rule translateBatchInternal_strings[OF _ m]) simp
    have b: "\<forall>i \<in> set (map fst kept). i < length texts"
      unfolding kept_def using kept_indices[of _ texts] by blast
    from place_results_frame[OF b, of m] s
    have "length out = length texts"
      and 1: "\<forall>i < length texts. i \<notin> set (map fst kept) \<longrightarrow> out ! i = texts ! i"
      and 2: "\<forall>i < length texts. out ! i = texts ! i \<or> (\<exists>s. out ! i = JStr s)"
      by (simp_all add: out)
    moreover have "\<forall>i < length texts. \<not> is_translatable (texts ! i) \<longrightarrow> out ! i = texts ! i"
      using 1 kept_indices[of _ texts] unfolding kept_def by blast
    ultimately show ?thesis by blast
  qed
qed

lemma translateTextsBatch_raises_iff:
  "(\<exists>e st'. translateTextsBatch srv texts st = (Inl e, st')) \<longleftrightarrow>
     (\<exists>t \<in> set texts. is_translatable t) \<and>
     (\<exists>x. srv (length (requests st)) = Rejected x \<and> fatal_status x)"
proof -
  define kept where "kept = filter (\<lambda>(index, t). is_translatable t) (enumerate 0 texts)"
  have "kept \<noteq> [] \<longleftrightarrow> (\<exists>i. i \<in> set (map fst kept))"
    by (cases kept) auto
  also have "\<dots> \<longleftrightarrow> (\<exists>i < length texts. is_translatable (texts ! i))"
    unfolding kept_def kept_indices by blast
  also have "\<dots> \<longleftrightarrow> (\<exists>t \<in> set texts. is_translatable t)"
    by (metis in_set_conv_nth)
  finally have k: "map (the_string \<circ> snd) kept \<noteq> [] \<longleftrightarrow> (\<exists>t \<in> set texts. is_translatable t)"
    by simp
  have ne: "(\<exists>t \<in> set texts. is_translatable t) \<Longrightarrow> texts \<noteq> []" by auto
  show ?thesis
  proof (cases "\<exists>t \<in> set texts. is_translatable t")
    case False
    with k have "map (the_string \<circ> snd) kept = []" by simp
    with False show ?thesis by (simp add: translateTextsBatch_def Let_def kept_def)
  next
    case True
    with k have kne: "map (the_string \<circ> snd) kept \<noteq> []" by simp
    have "(\<exists>e st'. translateTextsBatch srv texts st = (Inl e, st')) \<longleftrightarrow>
        (\<exists>e st'. translateBatchInternal srv (map (the_string \<circ> snd) kept)
            [0..<length (map (the_string \<circ> snd) kept)] 0 st = (Inl e, st'))"
      using ne[OF True] kne
      by (auto simp: translateTextsBatch_def Let_def kept_def split: prod.splits sum.splits)
    then show ?thesis using True kne
      by (simp add: translateBatchInternal_raises_iff)
  qed
qed

lemma foldl_assign_frame:
  assumes "\<forall>(index, t) \<in> set es. index < length keys \<longrightarrow> keys ! index \<in> fst ` set d \<and> P t"
  shows "map fst (foldl (\<lambda>d (index, translatedText).
              if index < length keys then AList.update (keys ! index) translatedText d else d) d es)
          = map fst d \<and>
         (\<forall>k. k \<notin> set keys \<longrightarrow>
            map_of (foldl (\<lambda>d (index, translatedText).
              if index < length keys then AList.update (keys ! index) translatedText d else d) d es) k
            = map_of d k) \<and>
         (\<forall>k v. map_of (foldl (\<lambda>d (index, translatedText).
              if index < length keys then AList.update (keys ! index) translatedText d else d) d es) k
            = Some v \<longrightarrow> map_of d k = Some v \<or> P v)"
  using assms
proof (induction es arbitrary: d)
  case Nil then show ?case by simp
next
  case (Cons e es)
  obtain index t where e: "e = (index, t)" by (cases e)
  define d' where "d' = (if index < length keys then AList.update (keys ! index) t d else d)"
  have keys: "map fst d' = map fst d"
    using Cons.prems by (auto simp: d'_def e update_keys)
  have other: "\<forall>k. k \<notin> set keys \<longrightarrow> map_of d' k = map_of d k"
    by (auto simp: d'_def update_conv')
  have val: "\<forall>k v. map_of d' k = Some v \<longrightarrow> map_of d k = Some v \<or> P v"
    using Cons.prems by (auto simp: d'_def e update_conv' split: if_splits)
  have pre: "\<forall>(index, t) \<in> set es. index < length keys \<longrightarrow> keys ! index \<in> fst ` set d' \<and> P t"
  proof -
    have "fst ` set d' = fst ` set d" using keys by (metis set_map)
    then show ?thesis using Cons.prems by auto
  qed
  note IH = Cons.IH[OF pre]
  have step: "foldl (\<lambda>d (index, translatedText).
              if index < length keys then AList.update (keys ! index) translatedText d else d) d (e # es)
       = foldl (\<lambda>d (index, translatedText).
              if index < length keys then AList.update (keys ! index) translatedText d else d) d' es"
    by (simp add: e d'_def)
  show ?case unfolding step using IH keys other val by (metis (no_types, lifting))
qed

lemma distinct_keys_nth:
  assumes "distinct (map fst kvs)" "i < length kvs"
  shows "map_of kvs (fst (kvs ! i)) = Some (snd (kvs ! i))"
  using assms by (simp add: map_of_eq_Some_iff)

lemmas exec_defs = execJSON_def translateTextsBatch_def place_results_def assign_texts_def
  array_set_def trim_def trimStart_def trimEnd_def isWhiteSpace_def

text \<open>
  Claim C6. \<^verbatim>\<open>OpenAITranslator.execLOCAL\<close> returns every string input unchanged and leaves
  the state as it is (no request is issued): no object that \<^verbatim>\<open>#parseLocal\<close> builds has a
  property \<^verbatim>\<open>value\<close> (a key-value line keeps its value under \<^verbatim>\<open>v\<close>), so the filter of
  \<^verbatim>\<open>execLOCAL\<close>, which reads \<^verbatim>\<open>item.value\<close>, selects nothing.
\<close>

theorem execLOCAL_identity:
  "execLOCAL srv (JStr s) st = (Inr (JStr s), st) \<and>
   list_all (\<lambda>item. get_prop item ''value'' = JUndefined) (priv_parseLocal s)"
proof -
  have "filter (\<lambda>(index, item). get_prop item ''type'' = JStr (js ''kv'') \<and>
                  is_translatable (get_prop item ''value''))
          (enumerate 0 (priv_parseLocal s)) = []"
  proof -
    have "\<not> is_translatable (get_prop item ''value'')"
      if "(index, item) \<in> set (enumerate 0 (priv_parseLocal s))" for index item
    proof -
      from that have "item \<in> set (priv_parseLocal s)" by (auto simp: in_set_enumerate_eq)
      then show ?thesis by (simp add: priv_parseLocal_no_value)
    qed
    then show ?thesis by (auto simp: filter_empty_conv)
  qed
  then have "execLOCAL srv (JStr s) st = (Inr (JStr s), st)"
    by (simp add: execLOCAL_def Let_def)
  moreover have "list_all (\<lambda>item. get_prop item ''value'' = JUndefined) (priv_parseLocal s)"
    by (simp add: list_all_iff priv_parseLocal_no_value)
  ultimately show ?thesis by simp
qed

text \<open>
  \<^verbatim>\<open>OpenAITranslator.execJSON\<close> keeps the keys of a JSON object (its keys distinct): it
  raises exactly when some value is a non-blank string and the first request is rejected
  with status 401 or 429; whenever it returns, it returns an object with the same keys in
  the same order, in which every value that is not a string, or is blank after trimming, is
  the value of the input, and every other value is a string.
\<close>

lemma execJSON_preserves_keys:
  assumes "distinct (map fst kvs)"
  shows "((\<exists>e st'. execJSON srv (JObj kvs) st = (Inl e, st')) \<longleftrightarrow>
            (\<exists>v \<in> snd ` set kvs. is_translatable v) \<and>
            (\<exists>x. srv (length (requests st)) = Rejected x \<and> fatal_status x)) \<and>
         (\<forall>out st'. execJSON srv (JObj kvs) st = (Inr out, st') \<longrightarrow>
            (\<exists>kvs'. out = JObj kvs' \<and> map fst kvs' = map fst kvs \<and>
               (\<forall>i < length kvs. \<not> is_translatable (snd (kvs ! i)) \<longrightarrow> kvs' ! i = kvs ! i) \<and>
               (\<forall>i < length kvs. is_translatable (snd (kvs ! i)) \<longrightarrow>
                                   (\<exists>s. snd (kvs' ! i) = JStr s))))"
proof -
  define kept where "kept = filter (\<lambda>(k, v). is_translatable v) kvs"
  define keys where "keys = map fst kept"
  define texts where "texts = map snd kept"
  have tr: "\<forall>t \<in> set texts. is_translatable t" by (auto simp: texts_def kept_def)
  have ex: "(\<exists>t \<in> set texts. is_translatable t) \<longleftrightarrow> (\<exists>v \<in> snd ` set kvs. is_translatable v)"
    by (force simp: texts_def kept_def)
  have ne: "texts \<noteq> [] \<longleftrightarrow> (\<exists>v \<in> snd ` set kvs. is_translatable v)"
    using tr ex by (cases texts) auto
  have unfold: "execJSON srv (JObj kvs) st =
      (if texts = [] then (Inr (JObj kvs), st)
       else (case translateTextsBatch srv texts st of
               (Inl e, st') \<Rightarrow> (Inl e, st')
             | (Inr tt, st') \<Rightarrow> (Inr (JObj (assign_texts keys tt kvs)), st')))"
    by (auto simp: execJSON_def Let_def kept_def keys_def texts_def split: prod.splits sum.splits)
  have raises: "(\<exists>e st'. execJSON srv (JObj kvs) st = (Inl e, st')) \<longleftrightarrow>
            (\<exists>v \<in> snd ` set kvs. is_translatable v) \<and>
            (\<exists>x. srv (length (requests st)) = Rejected x \<and> fatal_status x)"
  proof (cases "texts = []")
    case True
    with ne show ?thesis by (simp add: unfold)
  next
    case False
    then have "(\<exists>e st'. execJSON srv (JObj kvs) st = (Inl e, st')) \<longleftrightarrow>
        (\<exists>e st'. translateTextsBatch srv texts st = (Inl e, st'))"
      by (auto simp: unfold split: prod.splits sum.splits)
    then show ?thesis using ex by (simp add: translateTextsBatch_raises_iff)
  qed
  have returns: "\<exists>kvs'. out = JObj kvs' \<and> map fst kvs' = map fst kvs \<and>
               (\<forall>i < length kvs. \<not> is_translatable (snd (kvs ! i)) \<longrightarrow> kvs' ! i = kvs ! i) \<and>
               (\<forall>i < length kvs. is_translatable (snd (kvs ! i)) \<longrightarrow>
                                   (\<exists>s. snd (kvs' ! i) = JStr s))"
    if r: "execJSON srv (JObj kvs) st = (Inr out, st')" for out st'
  proof (cases "texts = []")
    case True
    with r have out: "out = JObj kvs" by (simp add: unfold)
    have "\<not> is_translatable (snd (kvs ! i))" if "i < length kvs" for i
      using True ne that by (metis image_eqI nth_mem)
    with out show ?thesis by simp
  next
    case False
    with r obtain tt where tt: "translateTextsBatch srv texts st = (Inr tt, st')"
      and out: "out = JObj (assign_texts keys tt kvs)"
      by (auto simp: unfold split: prod.splits sum.splits)
    from translateTextsBatch_frame[OF tt]
    have ltt: "length tt = length texts"
      and stt: "\<forall>i < length texts. tt ! i = texts ! i \<or> (\<exists>s. tt ! i = JStr s)" by blast+
    have isstr: "\<exists>s. tt ! i = JStr s" if "i < length texts" for i
    proof -
      from that tr have "is_translatable (texts ! i)" by simp
      then obtain s where "texts ! i = JStr s" by (cases "texts ! i") auto
      with stt that show ?thesis by auto
    qed
    have lk: "length keys = length texts" by (simp add: keys_def texts_def)
    have sub: "set keys \<subseteq> fst ` set kvs" by (auto simp: keys_def kept_def)
    have pre: "\<forall>(index, t) \<in> set (enumerate 0 tt). index < length keys \<longrightarrow>
        keys ! index \<in> fst ` set kvs \<and> (\<exists>s. t = JStr s)"
      using sub isstr lk ltt by (auto simp: in_set_enumerate_eq)
    define kvs' where "kvs' = assign_texts keys tt kvs"
    from foldl_assign_frame[OF pre]
    have k': "map fst kvs' = map fst kvs"
      and o': "\<forall>k. k \<notin> set keys \<longrightarrow> map_of kvs' k = map_of kvs k"
      and v': "\<forall>k v. map_of kvs' k = Some v \<longrightarrow> map_of kvs k = Some v \<or> (\<exists>s. v = JStr s)"
      unfolding kvs'_def assign_texts_def by blast+
    have d': "distinct (map fst kvs')" using k' assms by simp
    have l': "length kvs' = length kvs" using k' by (metis length_map)
    have same: "kvs' ! i = kvs ! i" if i: "i < length kvs" and nt: "\<not> is_translatable (snd (kvs ! i))" for i
    proof -
      have fk: "fst (kvs' ! i) = fst (kvs ! i)" using k' i l' by (metis nth_map)
      have "fst (kvs ! i) \<notin> set keys"
      proof
        assume "fst (kvs ! i) \<in> set keys"
        then obtain v where v: "(fst (kvs ! i), v) \<in> set kvs" "is_translatable v"
          by (auto simp: keys_def kept_def)
        from v(1) assms have "map_of kvs (fst (kvs ! i)) = Some v" by simp
        with distinct_keys_nth[OF assms i] have "v = snd (kvs ! i)" by simp
        with v(2) nt show False by simp
      qed
      with o' have "map_of kvs' (fst (kvs ! i)) = map_of kvs (fst (kvs ! i))" by simp
      with distinct_keys_nth[OF assms i] distinct_keys_nth[OF d', of i] i l' fk
      have "snd (kvs' ! i) = snd (kvs ! i)" by simp
      with fk show ?thesis by (simp add: prod_eq_iff)
    qed
    have strs: "\<exists>s. snd (kvs' ! i) = JStr s" if i: "i < length kvs" and t: "is_translatable (snd (kvs ! i))" for i
    proof -
      have fk: "fst (kvs' ! i) = fst (kvs ! i)" using k' i l' by (metis nth_map)
      have "map_of kvs' (fst (kvs ! i)) = Some (snd (kvs' ! i))"
        using distinct_keys_nth[OF d', of i] i l' fk by simp
      with v' have "map_of kvs (fst (kvs ! i)) = Some (snd (kvs' ! i)) \<or> (\<exists>s. snd (kvs' ! i) = JStr s)"
        by blast
      moreover have "\<exists>s. snd (kvs ! i) = JStr s" using t by (cases "snd (kvs ! i)") auto
      ultimately show ?thesis using distinct_keys_nth[OF assms i] by auto
    qed
    show ?thesis using out k' same strs by (auto simp: kvs'_def)
  qed
  show ?thesis using raises returns by blast
qed

lemma execJSON_preserves_keys_example:
  "\<exists>kvs' st'.
     execJSON (\<lambda>n. Parsed (JObj [(js ''0'', JStr (js ''X''))]))
       (JObj [(js ''k'', JStr (js ''hello'')), (js ''n'', JNum (Finite 3)), (js ''e'', JStr (js '' ''))])
       init_state = (Inr (JObj kvs'), st') \<and>
     map fst kvs' = [js ''k'', js ''n'', js ''e''] \<and>
     kvs' ! 1 = (js ''n'', JNum (Finite 3)) \<and> kvs' ! 2 = (js ''e'', JStr (js '' '')) \<and>
     (\<exists>s. snd (kvs' ! 0) = JStr s)"
proof -
  let ?srv = "\<lambda>n::nat. Parsed (JObj [(js ''0'', JStr (js ''X''))])"
  let ?kvs = "[(js ''k'', JStr (js ''hello'')), (js ''n'', JNum (Finite 3)), (js ''e'', JStr (js '' ''))]"
  have d: "distinct (map fst ?kvs)" by (simp add: js_def)
  have run: "execJSON ?srv (JObj ?kvs) init_state =
      (Inr (JObj [(js ''k'', JStr (js ''X'')), (js ''n'', JNum (Finite 3)), (js ''e'', JStr (js '' ''))]),
       \<lparr> requests = [([js ''hello''], [0], 0)], console = [] \<rparr>)"
    by (simp add: exec_defs run_defs)
  note th = execJSON_preserves_keys [where srv="?srv" and st=init_state and kvs="?kvs", OF d]
  note ret = th[THEN conjunct2, rule_format, OF run]
  from ret obtain kvs' where k: "JObj [(js ''k'', JStr (js ''X'')), (js ''n'', JNum (Finite 3)), (js ''e'', JStr (js '' ''))] = JObj kvs'"
      "map fst kvs' = map fst ?kvs"
      "\<forall>i < length ?kvs. \<not> is_translatable (snd (?kvs ! i)) \<longrightarrow> kvs' ! i = ?kvs ! i"
      "\<forall>i < length ?kvs. is_translatable (snd (?kvs ! i)) \<longrightarrow> (\<exists>s. snd (kvs' ! i) = JStr s)"
    by (elim exE conjE) (rule that)
  have n1: "\<not> is_translatable (snd (?kvs ! 1))" by simp
  have n2: "\<not> is_translatable (snd (?kvs ! 2))" by (simp add: exec_defs js_def)
  have t0: "is_translatable (snd (?kvs ! 0))" by (simp add: exec_defs js_def)
  have a1: "kvs' ! 1 = (js ''n'', JNum (Finite 3))" using k(3)[rule_format, of 1] n1 by simp
  have a2: "kvs' ! 2 = (js ''e'', JStr (js '' ''))" using k(3)[rule_format, of 2] n2 by simp
  have a0: "\<exists>s. snd (kvs' ! 0) = JStr s" using k(4)[rule_format, of 0] t0 by simp
  have a3: "map fst kvs' = [js ''k'', js ''n'', js ''e'']" using k(2) by simp
  have r: "execJSON ?srv (JObj ?kvs) init_state =
      (Inr (JObj kvs'), \<lparr> requests = [([js ''hello''], [0], 0)], console = [] \<rparr>)"
    using run k(1) by simp
  show ?thesis
    by (rule exI[of _ kvs'], rule exI[of _ "\<lparr> requests = [([js ''hello''], [0], 0)], console = [] \<rparr>"])
       (intro conjI r a3 a1 a2 a0)
qed

section \<open>Properties of \<^verbatim>\<open>LangTranslate.execJSON\<close>\<close>

text \<open>
  For an object that has no own key \<^verbatim>\<open>__proto__\<close>, \<^verbatim>\<open>LangTranslate.execJSON\<close> keeps the keys
  too: whenever it returns, the result has the keys of the input in the same order, the
  values that are not non-blank strings are those of the input, the others are strings.
\<close>

lemma update_fresh_key: "k \<notin> fst ` set al \<Longrightarrow> AList.update k v al = al @ [(k, v)]"
  by (induction al) auto

lemma assign_member_fresh:
  "k \<noteq> js ''__proto__'' \<Longrightarrow> k \<notin> fst ` set props \<Longrightarrow> assign_member props k v = props @ [(k, v)]"
  by (simp add: assign_member_def update_fresh_key)

lemma LangTranslate_translateText_result:
  "LangTranslate_translateText srv t st = (Inr r, st') \<Longrightarrow>
     (if is_translatable t then r = t \<or> (\<exists>s. r = JStr s) else r = t)"
  by (auto simp: LangTranslate_translateText_def split: if_splits deepl_outcome.splits deepl_error.splits)

lemma LangTranslate_translateText_raises:
  "LangTranslate_translateText srv t st = (Inl e, st') \<Longrightarrow>
     message e = js ''DeepL Quota Exceeded'' \<or>
     message e = js ''DeepL Authorization Failed. Check API Key.''"
  by (auto simp: LangTranslate_translateText_def split: if_splits deepl_outcome.splits deepl_error.splits)

lemma LangTranslate_keys_loop_result:
  "distinct ks \<Longrightarrow> js ''__proto__'' \<notin> set ks \<Longrightarrow> set ks \<inter> fst ` set td = {} \<Longrightarrow>
   LangTranslate_keys_loop srv d ks td st = (Inr td', st') \<Longrightarrow>
   \<exists>vs. length vs = length ks \<and> td' = td @ zip ks vs \<and>
        (\<forall>i < length ks.
           (if is_translatable (member_value d (ks ! i))
            then (\<exists>s. vs ! i = JStr s) else vs ! i = member_value d (ks ! i)))"
proof (induction ks arbitrary: td st)
  case Nil
  then show ?case by simp
next
  case (Cons k ks)
  define v0 where "v0 = member_value d k"
  from Cons.prems have k: "k \<noteq> js ''__proto__''" "k \<notin> fst ` set td" "k \<notin> set ks" by auto
  have "\<exists>w st1. LangTranslate_keys_loop srv d ks (td @ [(k, w)]) st1 = (Inr td', st') \<and>
          (if is_translatable v0 then (\<exists>s. w = JStr s) else w = v0)"
  proof (cases "is_translatable v0")
    case False
    with Cons.prems(4) k show ?thesis
      by (auto simp: v0_def[symmetric] assign_member_fresh)
  next
    case True
    then obtain s0 where s0: "v0 = JStr s0" by (cases v0) auto
    obtain r st1 where tr: "LangTranslate_translateText srv v0 st = (r, st1)"
      by (cases "LangTranslate_translateText srv v0 st") blast
    show ?thesis
    proof (cases r)
      case (Inl e)
      with tr LangTranslate_translateText_raises[of srv v0 st e st1] Cons.prems(4) True
      show ?thesis by (auto simp: v0_def[symmetric])
    next
      case (Inr t)
      with tr LangTranslate_translateText_result[of srv v0 st t st1] True s0
      obtain s where "t = JStr s" by auto
      with tr Inr Cons.prems(4) True k show ?thesis
        by (auto simp: v0_def[symmetric] assign_member_fresh)
    qed
  qed
  then obtain w st1 where run: "LangTranslate_keys_loop srv d ks (td @ [(k, w)]) st1 = (Inr td', st')"
    and w: "if is_translatable v0 then (\<exists>s. w = JStr s) else w = v0" by blast
  have "set ks \<inter> fst ` set (td @ [(k, w)]) = {}" using Cons.prems(1,3) by auto
  from Cons.IH[OF _ _ this run] Cons.prems(1,2)
  obtain vs where vs: "length vs = length ks" "td' = (td @ [(k, w)]) @ zip ks vs"
    "\<forall>i < length ks.
           (if is_translatable (member_value d (ks ! i))
            then (\<exists>s. vs ! i = JStr s) else vs ! i = member_value d (ks ! i))"
    by auto
  have "\<forall>i < length (k # ks).
           (if is_translatable (member_value d ((k # ks) ! i))
            then (\<exists>s. (w # vs) ! i = JStr s) else (w # vs) ! i = member_value d ((k # ks) ! i))"
  proof (intro allI impI)
    fix i assume "i < length (k # ks)"
    then show "if is_translatable (member_value d ((k # ks) ! i))
            then (\<exists>s. (w # vs) ! i = JStr s) else (w # vs) ! i = member_value d ((k # ks) ! i)"
      using w vs(3) by (cases i) (auto simp: v0_def)
  qed
  moreover have "length (w # vs) = length (k # ks)" using vs(1) by simp
  moreover have "td' = td @ zip (k # ks) (w # vs)" using vs(2) by simp
  ultimately show ?case by blast
qed

lemma LangTranslate_execJSON_keeps_other_keys:
  assumes "distinct (map fst kvs)" "js ''__proto__'' \<notin> fst ` set kvs"
    and "LangTranslate_execJSON srv (JObj kvs) st = (Inr out, st')"
  shows "\<exists>kvs'. out = JObj kvs' \<and> map fst kvs' = map fst kvs \<and>
           (\<forall>i < length kvs.
              (if is_translatable (snd (kvs ! i)) then (\<exists>s. snd (kvs' ! i) = JStr s)
               else kvs' ! i = kvs ! i))"
proof -
  from assms(3) obtain td where run:
    "LangTranslate_keys_loop srv (JObj kvs) (map fst kvs) [] st = (Inr td, st')" and out: "out = JObj td"
    by (auto simp: LangTranslate_execJSON_def split: sum.splits prod.splits)
  from LangTranslate_keys_loop_result[OF assms(1) _ _ run] assms(2)
  obtain vs where vs: "length vs = length kvs" "td = zip (map fst kvs) vs"
    "\<forall>i < length kvs.
       (if is_translatable (member_value (JObj kvs) (map fst kvs ! i))
        then (\<exists>s. vs ! i = JStr s) else vs ! i = member_value (JObj kvs) (map fst kvs ! i))"
    by auto
  have mv: "member_value (JObj kvs) (map fst kvs ! i) = snd (kvs ! i)" if "i < length kvs" for i
    using distinct_keys_nth[OF assms(1) that] that by (simp add: member_value_def)
  have "map fst td = map fst kvs" using vs(1,2) by simp
  moreover have "\<forall>i < length kvs.
              (if is_translatable (snd (kvs ! i)) then (\<exists>s. snd (td ! i) = JStr s)
               else td ! i = kvs ! i)"
  proof (intro allI impI)
    fix i assume i: "i < length kvs"
    have "td ! i = (fst (kvs ! i), vs ! i)" using vs(1,2) i by simp
    with vs(3)[rule_format, OF i] mv[OF i]
    show "if is_translatable (snd (kvs ! i)) then (\<exists>s. snd (td ! i) = JStr s)
               else td ! i = kvs ! i"
      by (auto simp: prod_eq_iff)
  qed
  ultimately show ?thesis using out by blast
qed

text \<open>
  Claim C8. The claim holds for \<^verbatim>\<open>OpenAITranslator.execJSON\<close> (lemma
  \<open>execJSON_preserves_keys\<close>) and, on objects without an own key \<^verbatim>\<open>__proto__\<close>, for
  \<^verbatim>\<open>LangTranslate.execJSON\<close> (lemma \<open>LangTranslate_execJSON_keeps_other_keys\<close>). A JSON
  text may have a member named \<^verbatim>\<open>__proto__\<close>, and \<^verbatim>\<open>JSON.parse\<close> makes it an own property.
  On the object with the two properties \<^verbatim>\<open>__proto__\<close> (the string \<^verbatim>\<open>hello\<close>) and \<^verbatim>\<open>k\<close> (the
  string \<^verbatim>\<open>world\<close>), \<^verbatim>\<open>LangTranslate.execJSON\<close> sends both texts and returns an object
  whose only key is \<^verbatim>\<open>k\<close>: the key \<^verbatim>\<open>__proto__\<close> of the input is lost.
\<close>

theorem LangTranslate_execJSON_drops_proto_key:
  "LangTranslate_execJSON (\<lambda>n. TextResult (js ''X''))
     (JObj [(js ''__proto__'', JStr (js ''hello'')), (js ''k'', JStr (js ''world''))]) [] =
     (Inr (JObj [(js ''k'', JStr (js ''X''))]), [js ''hello'', js ''world''])"
  by (simp add: LangTranslate_execJSON_def LangTranslate_translateText_def member_value_def
        assign_member_def exec_defs js_def)

section \<open>Properties of \<^verbatim>\<open>translatePatchouliBookObject\<close>\<close>

subsection \<open>Array indices as keys\<close>







lemma index_key_None_iff: "index_key k n = None \<longleftrightarrow> (\<forall>i < n. decimal i \<noteq> k)"
  by (auto simp: index_key_def find_None_iff)

subsection \<open>The frame relation\<close>






















subsection \<open>What \<^verbatim>\<open>extractStrings\<close> collects\<close>

lemma prefixed_empty [simp]: "prefixed p {} = {}"
  by (simp add: prefixed_def)



lemma prefixed_Nil [simp]: "prefixed [] S = S"
  by (force simp: prefixed_def image_iff)

lemma prefixed_UN: "prefixed p (\<Union>x\<in>A. f x) = (\<Union>x\<in>A. prefixed p (f x))"
  by (auto simp: prefixed_def)


lemma pairs_of_Nil [simp]: "pairs_of [] = {}"
  by (simp add: pairs_of_def)


lemma pairs_of_single [simp]:
  "pairs_of [\<lparr> item_path = p, originalText = s \<rparr>] = {(p, s)}"
  by (simp add: pairs_of_def)

lemma props_leaves_Nil [simp]: "props_leaves [] = {}"
  by (simp add: props_leaves_def)


lemma indexed_leaves_Nil [simp]: "indexed_leaves i [] = {}"
  by (simp add: indexed_leaves_def)


lemma element_leaves_Nil [simp]: "element_leaves i [] = {}"
  by (simp add: element_leaves_def)














subsection \<open>The store\<close>


subsection \<open>Values that own their cells\<close>

inductive_cases owned_props_NilE: "owned_props h hkvs [] A"


lemma primitive_not_ref [simp]: "\<not> is_ref (primitive v)"
  by (cases v) auto












subsection \<open>\<^verbatim>\<open>setValueByPath\<close> on a value that owns its cells\<close>







lemma stored_not_ref: "stored h hv v \<Longrightarrow> \<not> is_object v \<Longrightarrow> \<not> is_ref hv"
  by (cases v) auto








section \<open>Properties of the cache helpers\<close>

text \<open>
  Claim C10. The cache key is a function of the archive name, the entry path, the target
  language and the prompt version alone: two file records that agree on the first two give
  the same digest, whatever their other fields. \<^verbatim>\<open>readFromCache\<close> never raises: it returns
  \<^verbatim>\<open>null\<close> when the cache is disabled, when the file cannot be read and when its content
  does not parse, and the parsed content otherwise. \<^verbatim>\<open>writeToCache\<close> never raises: when
  creating the directory, serialising or writing fails, it prints a warning and writes
  nothing.
\<close>

theorem cache_key_deterministic_and_io_nonfatal:
  "(originalJar fi = originalJar fi' \<and> originalPathInJar fi = originalPathInJar fi' \<longrightarrow>
      getCacheKey md5 fi lang ver = getCacheKey md5 fi' lang ver) \<and>
   (\<exists>v st'. readFromCache env enabled dir k st = (Inr v, st') \<and>
      ((\<not> enabled \<or> (\<exists>e. readFile env (cache_file_path dir k) = Inl e) \<or>
        (\<exists>d e. readFile env (cache_file_path dir k) = Inr d \<and> JSON_parse env d = Inl e))
       \<longrightarrow> v = JNull) \<and>
      (\<forall>d j. enabled \<and> readFile env (cache_file_path dir k) = Inr d \<and> JSON_parse env d = Inr j
       \<longrightarrow> v = j \<and> st' = st)) \<and>
   (\<exists>st'. writeToCache env enabled dir k dat st = (Inr (), st') \<and>
      (enabled \<and>
       (mkdir env dir \<noteq> None \<or> (\<exists>e. JSON_stringify env dat = Inl e) \<or>
        (\<exists>b. JSON_stringify env dat = Inr b \<and> writeFile env (cache_file_path dir k) b \<noteq> None))
       \<longrightarrow> (\<exists>msg. cache_console st' = cache_console st @ [Warn_cache_write k msg]) \<and>
           written st' = written st))"
proof (intro conjI)
  show "originalJar fi = originalJar fi' \<and> originalPathInJar fi = originalPathInJar fi' \<longrightarrow>
      getCacheKey md5 fi lang ver = getCacheKey md5 fi' lang ver"
    by (simp add: getCacheKey_def)
next
  show "\<exists>v st'. readFromCache env enabled dir k st = (Inr v, st') \<and>
      ((\<not> enabled \<or> (\<exists>e. readFile env (cache_file_path dir k) = Inl e) \<or>
        (\<exists>d e. readFile env (cache_file_path dir k) = Inr d \<and> JSON_parse env d = Inl e))
       \<longrightarrow> v = JNull) \<and>
      (\<forall>d j. enabled \<and> readFile env (cache_file_path dir k) = Inr d \<and> JSON_parse env d = Inr j
       \<longrightarrow> v = j \<and> st' = st)"
    by (cases "readFile env (cache_file_path dir k)";
        cases "JSON_parse env (projr (readFile env (cache_file_path dir k)))")
       (auto simp: readFromCache_def try_catch_def Let_def)
next
  show "\<exists>st'. writeToCache env enabled dir k dat st = (Inr (), st') \<and>
      (enabled \<and>
       (mkdir env dir \<noteq> None \<or> (\<exists>e. JSON_stringify env dat = Inl e) \<or>
        (\<exists>b. JSON_stringify env dat = Inr b \<and> writeFile env (cache_file_path dir k) b \<noteq> None))
       \<longrightarrow> (\<exists>msg. cache_console st' = cache_console st @ [Warn_cache_write k msg]) \<and>
           written st' = written st)"
    by (cases "mkdir env dir"; cases "JSON_stringify env dat";
        cases "writeFile env (cache_file_path dir k) (projr (JSON_stringify env dat))")
       (auto simp: writeToCache_def try_catch_def Let_def)
qed

theorem cache_key_deterministic_and_io_nonfatal_witness:
  "getCacheKey (\<lambda>s. s)
     \<lparr> namespace = js ''create'', sourceFilename = js ''en_us.json'', isJson = True,
       content = js ''{}'', originalJar = js ''create.jar'',
       originalPathInJar = js ''assets/create/lang/en_us.json'' \<rparr> (js ''ja_jp'') PROMPT_VERSION
   = getCacheKey (\<lambda>s. s)
     \<lparr> namespace = js ''create'', sourceFilename = js ''en_us.json'', isJson = True,
       content = js ''[1, 2]'', originalJar = js ''create.jar'',
       originalPathInJar = js ''assets/create/lang/en_us.json'' \<rparr> (js ''ja_jp'') PROMPT_VERSION \<and>
   readFromCache
     \<lparr> readFile = (\<lambda>p. Inl \<lparr> code = Some (js ''EACCES''), io_message = js ''permission denied'' \<rparr>),
       mkdir = (\<lambda>p. None),
       writeFile = (\<lambda>p b. Some \<lparr> code = Some (js ''ENOSPC''), io_message = js ''no space left'' \<rparr>),
       JSON_parse = (\<lambda>s. Inr JNull), JSON_stringify = (\<lambda>v. Inr (js ''{}'')) \<rparr>
     True (js ''.translation_cache_v3'') (js ''k'') \<lparr> written = [], cache_console = [] \<rparr>
   = (Inr JNull, \<lparr> written = [],
        cache_console = [Warn_cache_read (js ''k'') (js ''permission denied'')] \<rparr>) \<and>
   writeToCache
     \<lparr> readFile = (\<lambda>p. Inl \<lparr> code = Some (js ''EACCES''), io_message = js ''permission denied'' \<rparr>),
       mkdir = (\<lambda>p. None),
       writeFile = (\<lambda>p b. Some \<lparr> code = Some (js ''ENOSPC''), io_message = js ''no space left'' \<rparr>),
       JSON_parse = (\<lambda>s. Inr JNull), JSON_stringify = (\<lambda>v. Inr (js ''{}'')) \<rparr>
     True (js ''.translation_cache_v3'') (js ''k'') (JStr (js ''x'')) \<lparr> written = [], cache_console = [] \<rparr>
   = (Inr (), \<lparr> written = [],
        cache_console = [Warn_cache_write (js ''k'') (js ''no space left'')] \<rparr>)"
  using cache_key_deterministic_and_io_nonfatal
    [of "\<lparr> namespace = js ''create'', sourceFilename = js ''en_us.json'', isJson = True,
       content = js ''{}'', originalJar = js ''create.jar'',
       originalPathInJar = js ''assets/create/lang/en_us.json'' \<rparr>"
      "\<lparr> namespace = js ''create'', sourceFilename = js ''en_us.json'', isJson = True,
       content = js ''[1, 2]'', originalJar = js ''create.jar'',
       originalPathInJar = js ''assets/create/lang/en_us.json'' \<rparr>"
      "\<lambda>s. s" "js ''ja_jp''" PROMPT_VERSION
      "\<lparr> readFile = (\<lambda>p. Inl \<lparr> code = Some (js ''EACCES''), io_message = js ''permission denied'' \<rparr>),
       mkdir = (\<lambda>p. None),
       writeFile = (\<lambda>p b. Some \<lparr> code = Some (js ''ENOSPC''), io_message = js ''no space left'' \<rparr>),
       JSON_parse = (\<lambda>s. Inr JNull), JSON_stringify = (\<lambda>v. Inr (js ''{}'')) \<rparr>"
      True "js ''.translation_cache_v3''" "js ''k''" "\<lparr> written = [], cache_console = [] \<rparr>"
      "JStr (js ''x'')"]
  by (simp add: getCacheKey_def readFromCache_def writeToCache_def try_catch_def
        cache_file_path_def js_def Let_def)


end
